theory Spec2Isabelle
  imports Main
begin

section \<open>Data model\<close>

text \<open>
  The program is a dungeon-instance scheduler: a pool of players (\<open>tanks\<close>,
  \<open>healers\<close>, \<open>dps\<close>), a vector of instances, one worker thread per instance and one
  scheduler thread. All of them share one mutex. The model is an interleaving of the
  blocks of code that each thread executes between two points where it gives up the
  mutex (a condition wait, an unlocked sleep) or, for the unlocked run of a dungeon, of
  the single increments of the elapsed counter.

  C++ \<open>int\<close> is modelled as \<open>int\<close>. The pool counters only decrease and are debited
  only when large enough, \<open>partiesServed\<close> is bounded by the initial number of tanks and
  \<open>currentTimeElapsed\<close> by the drawn duration (or 1), so none of them leaves the range of
  a 32-bit \<open>int\<close> when the configuration is within it. The one sum that can leave it
  is \<open>totalTime += duration\<close>: it is taken with the 32-bit two's-complement
  wrap-around written out (\<open>int32\<close>), which is what the usual targets compute where the
  language leaves signed overflow undefined.
\<close>

definition int32 :: "int \<Rightarrow> int" where
  "int32 x = (x + 2147483648) mod 4294967296 - 2147483648"

record Instance =
  inst_id :: int
  hasParty :: bool
  running :: bool
  partiesServed :: int
  totalTime :: int
  currentTimeElapsed :: int
  currDungeonDuration :: int

text \<open>The constructor \<open>Instance(int id_)\<close> with the default member initialisers.\<close>

definition new_Instance :: "int \<Rightarrow> Instance" where
  "new_Instance i =
     \<lparr>inst_id = i, hasParty = False, running = False, partiesServed = 0,
      totalTime = 0, currentTimeElapsed = 0, currDungeonDuration = 0\<rparr>"

text \<open>
  Where a worker thread stands when it does not hold the mutex:
  \<^item> \<open>AtWait\<close>: blocked in \<open>instance->cv.wait\<close> (or about to take the mutex for the first
    time, which leads to the same loop head);
  \<^item> \<open>FirstTick d\<close>: after \<open>lock.unlock()\<close>, before the first increment, with the local
    \<open>duration = d\<close>;
  \<^item> \<open>LoopHead d i\<close>: at the test \<open>i < duration\<close> of the \<open>for\<close> loop;
  \<^item> \<open>Exited\<close>: the thread function has returned.
\<close>

datatype worker_pc = AtWait | FirstTick int | LoopHead int int | Exited

text \<open>
  Where the scheduler thread stands: blocked in \<open>cv_scheduler.wait\<close>, in the unlocked
  100 ms sleep, or returned.
\<close>

datatype sched_pc = SchedWait | SchedBackoff | SchedExited

text \<open>The globals of \<open>main.cpp\<close>, and the control points of the threads.\<close>

record state =
  tanks :: int
  healers :: int
  dps :: int
  t1 :: int
  t2 :: int
  stopFlag :: bool
  instances :: "Instance list"
  workers :: "worker_pc list"
  scheduler :: sched_pc

text \<open>
  \<open>main\<close>: the six values read from the terminal, the loop
  \<open>for (int i = 1; i <= n; ++i)\<close> that creates the instances and their threads, and the
  start of the scheduler.
\<close>

definition init_state :: "int \<Rightarrow> int \<Rightarrow> int \<Rightarrow> int \<Rightarrow> int \<Rightarrow> int \<Rightarrow> state" where
  "init_state n ta he dp lo hi =
     \<lparr>tanks = ta, healers = he, dps = dp, t1 = lo, t2 = hi, stopFlag = False,
      instances = map new_Instance [1..n],
      workers = map (\<lambda>_. AtWait) [1..n],
      scheduler = SchedWait\<rparr>"

section \<open>The worker thread\<close>

text \<open>
  \<open>instanceThread\<close>, from the wake-up out of \<open>cv.wait\<close> to \<open>lock.unlock()\<close>. The wait
  returns only when \<open>hasParty || stopFlag\<close>. When the stop flag is set the thread leaves
  the loop; otherwise it draws \<open>duration\<close> (the value \<open>d\<close>, which
  \<open>uniform_int_distribution(t1, t2)\<close> takes from the closed range) and marks itself
  running. The same text stands in both shipped files, so the functions of this section
  are written for every extension of the state record.
\<close>

definition instance_wake :: "nat \<Rightarrow> int \<Rightarrow> 'a state_scheme \<Rightarrow> 'a state_scheme option" where
  "instance_wake k d s =
     (if k < length (instances s) \<and> k < length (workers s) \<and> workers s ! k = AtWait
         \<and> (hasParty (instances s ! k) \<or> stopFlag s)
      then
        if stopFlag s then Some (s\<lparr>workers := (workers s)[k := Exited]\<rparr>)
        else if t1 s \<le> d \<and> d \<le> t2 s then
          Some (s\<lparr>instances := (instances s)
                       [k := (instances s ! k)\<lparr>running := True, currDungeonDuration := d\<rparr>],
                  workers := (workers s)[k := FirstTick d]\<rparr>)
        else None
      else None)"

text \<open>
  One \<open>instance->currentTimeElapsed++\<close>: the unconditional one before the \<open>for\<close> loop,
  or one iteration of \<open>for (int i = 1; i < duration; ++i)\<close>.
\<close>

definition instance_tick :: "nat \<Rightarrow> 'a state_scheme \<Rightarrow> 'a state_scheme option" where
  "instance_tick k s =
     (if k < length (instances s) \<and> k < length (workers s) then
        let instance = instances s ! k;
            ticked = instance\<lparr>currentTimeElapsed := currentTimeElapsed instance + 1\<rparr>
        in case workers s ! k of
             FirstTick d \<Rightarrow>
               Some (s\<lparr>instances := (instances s)[k := ticked],
                       workers := (workers s)[k := LoopHead d 1]\<rparr>)
           | LoopHead d i \<Rightarrow>
               if i < d then
                 Some (s\<lparr>instances := (instances s)[k := ticked],
                         workers := (workers s)[k := LoopHead d (i + 1)]\<rparr>)
               else None
           | _ \<Rightarrow> None
      else None)"

text \<open>
  The end of a run: the \<open>for\<close> loop is left (\<open>\<not> i < duration\<close>), the mutex is taken
  again, the tallies are written and the \<open>while (!stopFlag)\<close> test sends the thread back
  to the wait or out of the loop.
\<close>

definition instance_complete :: "nat \<Rightarrow> 'a state_scheme \<Rightarrow> 'a state_scheme option" where
  "instance_complete k s =
     (if k < length (instances s) \<and> k < length (workers s) then
        case workers s ! k of
          LoopHead d i \<Rightarrow>
            if i < d then None
            else
              let instance = instances s ! k;
                  finished = instance\<lparr>running := False, hasParty := False,
                                  partiesServed := partiesServed instance + 1,
                                  totalTime := int32 (totalTime instance + d),
                                  currentTimeElapsed := 0\<rparr>
              in Some (s\<lparr>instances := (instances s)[k := finished],
                         workers := (workers s)[k := (if stopFlag s then Exited else AtWait)]\<rparr>)
        | _ \<Rightarrow> None
      else None)"

section \<open>The scheduler thread of \<open>main.cpp\<close>\<close>

text \<open>The predicate of \<open>cv_scheduler.wait\<close>.\<close>

definition sched_wake_pred :: "'a state_scheme \<Rightarrow> bool" where
  "sched_wake_pred s \<longleftrightarrow>
     (tanks s \<ge> 1 \<and> healers s \<ge> 1 \<and> dps s \<ge> 3) \<or> stopFlag s
     \<or> list_ex (\<lambda>inst. \<not> hasParty inst \<and> \<not> running inst) (instances s)
     \<or> instances s = []"

text \<open>
  The loop \<open>for (auto &instance: instances)\<close> that assigns a party, from position \<open>k\<close>
  on; the result carries \<open>partyAssigned\<close>. The \<open>break\<close> is the branch that does not
  recurse.
\<close>

function assign_loop :: "nat \<Rightarrow> state \<Rightarrow> state \<times> bool" where
  "assign_loop k s =
     (if k < length (instances s) then
        let instance = instances s ! k in
        if \<not> hasParty instance \<and> \<not> running instance
           \<and> tanks s \<ge> 1 \<and> healers s \<ge> 1 \<and> dps s \<ge> 3
        then (s\<lparr>tanks := tanks s - 1, healers := healers s - 1, dps := dps s - 3,
                instances := (instances s)[k := instance\<lparr>hasParty := True\<rparr>]\<rparr>, True)
        else assign_loop (k + 1) s
      else (s, False))"
  by pat_completeness auto
termination
  by (relation "measure (\<lambda>(k, s). length (instances s) - k)") auto

declare assign_loop.simps [simp del]

text \<open>
  One pass of \<open>while (true)\<close> in \<open>schedulerThread\<close>, from the return of the wait to the
  next point where the mutex is released: the stop check, the assignment loop, the
  termination check and the choice between the backoff sleep and the next wait.
\<close>

definition sched_cycle :: "state \<Rightarrow> state" where
  "sched_cycle s =
     (if stopFlag s then s\<lparr>scheduler := SchedExited\<rparr>
      else
        let (s1, partyAssigned) = assign_loop 0 s;
            hasMorePlayers = (tanks s1 \<ge> 1 \<and> healers s1 \<ge> 1 \<and> dps s1 \<ge> 3);
            anyRunning = list_ex (\<lambda>inst. hasParty inst \<or> running inst) (instances s1)
        in if \<not> hasMorePlayers \<and> \<not> anyRunning
           then s1\<lparr>stopFlag := True, scheduler := SchedExited\<rparr>
           else if \<not> partyAssigned then s1\<lparr>scheduler := SchedBackoff\<rparr>
           else s1\<lparr>scheduler := SchedWait\<rparr>)"

section \<open>The interleaving\<close>

text \<open>
  An event is one atomic block of one thread:
  \<^item> \<open>SchedWake\<close>: \<open>cv_scheduler.wait\<close> returns (its predicate holds) and the scheduler
    makes one pass of its loop;
  \<^item> \<open>SchedBackoffEnd\<close>: the 100 ms sleep ends and the scheduler is back at its wait;
  \<^item> \<open>InstWake k d\<close>: the wait of worker \<open>k\<close> returns; \<open>d\<close> is the duration that
    \<open>getRandomTime\<close> returns if it is called;
  \<^item> \<open>InstTick k\<close>: one increment of the elapsed counter of instance \<open>k\<close>;
  \<^item> \<open>InstComplete k\<close>: worker \<open>k\<close> takes the mutex again and writes its tallies.

  Notifications are not modelled: a waiting thread may go on whenever its predicate
  holds, and in the source every write that makes a predicate true is followed by the
  matching notify. After a pass that assigned a party the source evaluates the wait
  predicate without releasing the mutex; here the next pass is a separate event, so the
  model has every interleaving of the program (and some more), and what holds in every
  state of every run of the model holds at every point where the program releases the
  mutex. The monitor loop of \<open>main\<close> only reads, and is left out.

  \<open>step\<close> gives \<open>None\<close> for an event that is not possible in a state, \<open>run\<close> the state
  after a list of events, and \<open>trace\<close> the states passed on the way.
\<close>

datatype event =
    SchedWake
  | SchedBackoffEnd
  | InstWake nat int
  | InstTick nat
  | InstComplete nat

fun step :: "event \<Rightarrow> state \<Rightarrow> state option" where
  "step SchedWake s =
     (if scheduler s = SchedWait \<and> sched_wake_pred s then Some (sched_cycle s) else None)"
| "step SchedBackoffEnd s =
     (if scheduler s = SchedBackoff then Some (s\<lparr>scheduler := SchedWait\<rparr>) else None)"
| "step (InstWake k d) s = instance_wake k d s"
| "step (InstTick k) s = instance_tick k s"
| "step (InstComplete k) s = instance_complete k s"

fun run :: "event list \<Rightarrow> state \<Rightarrow> state option" where
  "run [] s = Some s"
| "run (e # es) s = (case step e s of None \<Rightarrow> None | Some s' \<Rightarrow> run es s')"

fun trace :: "event list \<Rightarrow> state \<Rightarrow> state list" where
  "trace [] s = [s]"
| "trace (e # es) s = s # (case step e s of None \<Rightarrow> [] | Some s' \<Rightarrow> trace es s')"

section \<open>The second shipped file\<close>

text \<open>
  \<open>src/unnamed/part_000\<close> is the same program with one more global, \<open>partyNum\<close>
  (initially 1, incremented at every assignment), and with a \<open>main\<close> that asks again
  until each value read is acceptable.
\<close>

record state2 = state +
  partyNum :: int

text \<open>
  The conditions under which the input loops of that \<open>main\<close> accept the six values:
  \<open>n < 0 || n > numeric_limits<int>::max()\<close> is refused, likewise for the pool and for
  \<open>t1\<close>, and \<open>t2 < t1\<close> is refused. \<open>numeric_limits<int>::max()\<close> is taken as
  \<open>2^31 - 1\<close>.
\<close>

definition INT_MAX :: int where
  "INT_MAX = 2147483647"

definition valid_config :: "int \<Rightarrow> int \<Rightarrow> int \<Rightarrow> int \<Rightarrow> int \<Rightarrow> int \<Rightarrow> bool" where
  "valid_config n ta he dp lo hi \<longleftrightarrow>
     \<not> (n < 0 \<or> n > INT_MAX) \<and> \<not> (ta < 0 \<or> ta > INT_MAX) \<and> \<not> (he < 0 \<or> he > INT_MAX)
     \<and> \<not> (dp < 0 \<or> dp > INT_MAX) \<and> \<not> (lo < 0 \<or> lo > INT_MAX)
     \<and> \<not> (hi < lo \<or> hi > INT_MAX)"

definition init_state2 :: "int \<Rightarrow> int \<Rightarrow> int \<Rightarrow> int \<Rightarrow> int \<Rightarrow> int \<Rightarrow> state2" where
  "init_state2 n ta he dp lo hi =
     \<lparr>tanks = ta, healers = he, dps = dp, t1 = lo, t2 = hi, stopFlag = False,
      instances = map new_Instance [1..n],
      workers = map (\<lambda>_. AtWait) [1..n],
      scheduler = SchedWait,
      partyNum = 1\<rparr>"

text \<open>
  The assignment loop and the pass of \<open>schedulerThread\<close> in \<open>part_000\<close>: the text of
  \<open>main.cpp\<close> with \<open>partyNum++\<close> after the three debits. The wait predicate and
  \<open>instanceThread\<close> are the same text in both files.
\<close>

function assign_loop2 :: "nat \<Rightarrow> state2 \<Rightarrow> state2 \<times> bool" where
  "assign_loop2 k s =
     (if k < length (instances s) then
        let instance = instances s ! k in
        if \<not> hasParty instance \<and> \<not> running instance
           \<and> tanks s \<ge> 1 \<and> healers s \<ge> 1 \<and> dps s \<ge> 3
        then (s\<lparr>tanks := tanks s - 1, healers := healers s - 1, dps := dps s - 3,
                partyNum := partyNum s + 1,
                instances := (instances s)[k := instance\<lparr>hasParty := True\<rparr>]\<rparr>, True)
        else assign_loop2 (k + 1) s
      else (s, False))"
  by pat_completeness auto
termination
  by (relation "measure (\<lambda>(k, s). length (instances s) - k)") auto

declare assign_loop2.simps [simp del]

definition sched_cycle2 :: "state2 \<Rightarrow> state2" where
  "sched_cycle2 s =
     (if stopFlag s then s\<lparr>scheduler := SchedExited\<rparr>
      else
        let (s1, partyAssigned) = assign_loop2 0 s;
            hasMorePlayers = (tanks s1 \<ge> 1 \<and> healers s1 \<ge> 1 \<and> dps s1 \<ge> 3);
            anyRunning = list_ex (\<lambda>inst. hasParty inst \<or> running inst) (instances s1)
        in if \<not> hasMorePlayers \<and> \<not> anyRunning
           then s1\<lparr>stopFlag := True, scheduler := SchedExited\<rparr>
           else if \<not> partyAssigned then s1\<lparr>scheduler := SchedBackoff\<rparr>
           else s1\<lparr>scheduler := SchedWait\<rparr>)"

fun step2 :: "event \<Rightarrow> state2 \<Rightarrow> state2 option" where
  "step2 SchedWake s =
     (if scheduler s = SchedWait \<and> sched_wake_pred s then Some (sched_cycle2 s) else None)"
| "step2 SchedBackoffEnd s =
     (if scheduler s = SchedBackoff then Some (s\<lparr>scheduler := SchedWait\<rparr>) else None)"
| "step2 (InstWake k d) s = instance_wake k d s"
| "step2 (InstTick k) s = instance_tick k s"
| "step2 (InstComplete k) s = instance_complete k s"

fun trace2 :: "event list \<Rightarrow> state2 \<Rightarrow> state2 list" where
  "trace2 [] s = [s]"
| "trace2 (e # es) s = s # (case step2 e s of None \<Rightarrow> [] | Some s' \<Rightarrow> trace2 es s')"

section \<open>Observations and invariants\<close>

text \<open>Whether a worker is inside a dungeon run (between its wake-up and its completion).\<close>

fun in_run :: "worker_pc \<Rightarrow> bool" where
  "in_run (FirstTick d) = True"
| "in_run (LoopHead d i) = True"
| "in_run AtWait = False"
| "in_run Exited = False"

text \<open>
  The control points agree with the flags: a worker is inside a run exactly when its
  instance is \<open>running\<close>, and then the instance holds a party.
\<close>

definition consistent :: "state \<Rightarrow> bool" where
  "consistent s \<longleftrightarrow>
     length (workers s) = length (instances s) \<and>
     (\<forall>k < length (instances s).
        running (instances s ! k) = in_run (workers s ! k) \<and>
        (in_run (workers s ! k) \<longrightarrow> hasParty (instances s ! k)))"

text \<open>The parties completed by all instances, and the parties assigned and not completed.\<close>

definition served :: "state \<Rightarrow> int" where
  "served s = sum_list (map partiesServed (instances s))"

definition in_flight :: "state \<Rightarrow> int" where
  "in_flight s = sum_list (map (\<lambda>inst. if hasParty inst then 1 else 0) (instances s))"

definition conserved :: "int \<Rightarrow> int \<Rightarrow> int \<Rightarrow> state \<Rightarrow> bool" where
  "conserved ta he dp s \<longleftrightarrow>
     consistent s \<and>
     served s * 1 + tanks s + in_flight s * 1 = ta \<and>
     served s * 1 + healers s + in_flight s * 1 = he \<and>
     served s * 3 + dps s + in_flight s * 3 = dp"

text \<open>All threads have returned: \<open>main\<close> can join them and print the summary.\<close>

definition terminated :: "state \<Rightarrow> bool" where
  "terminated s \<longleftrightarrow> scheduler s = SchedExited \<and> list_all (\<lambda>pc. pc = Exited) (workers s)"

text \<open>
  The value of \<open>partyAssigned\<close> at the end of the pass that starts in \<open>s\<close>, and the
  number of passes of a run that assigned a party.
\<close>

definition party_assigned :: "state \<Rightarrow> bool" where
  "party_assigned s \<longleftrightarrow> \<not> stopFlag s \<and> snd (assign_loop 0 s)"

fun assignments :: "event list \<Rightarrow> state \<Rightarrow> nat" where
  "assignments [] s = 0"
| "assignments (e # es) s =
     (case step e s of
        None \<Rightarrow> 0
      | Some s' \<Rightarrow> (if e = SchedWake \<and> party_assigned s then 1 else 0) + assignments es s')"

text \<open>The ids are the positions in the vector, counted from 1, as \<open>main\<close> hands them out.\<close>

definition ids_ascending :: "state \<Rightarrow> bool" where
  "ids_ascending s \<longleftrightarrow> (\<forall>k < length (instances s). inst_id (instances s ! k) = int k + 1)"

text \<open>
  What the control point of a worker says about the elapsed counter and the recorded
  duration of its instance: the counter is 0 outside a run, and inside the \<open>for\<close> loop
  it equals the loop variable, which starts at 1.
\<close>

fun elapsed_at :: "worker_pc \<Rightarrow> Instance \<Rightarrow> bool" where
  "elapsed_at AtWait inst \<longleftrightarrow> currentTimeElapsed inst = 0"
| "elapsed_at Exited inst \<longleftrightarrow> currentTimeElapsed inst = 0"
| "elapsed_at (FirstTick d) inst \<longleftrightarrow>
     currentTimeElapsed inst = 0 \<and> currDungeonDuration inst = d"
| "elapsed_at (LoopHead d i) inst \<longleftrightarrow>
     currentTimeElapsed inst = i \<and> currDungeonDuration inst = d \<and> 1 \<le> i \<and> i \<le> max 1 d"

definition elapsed_ok :: "state \<Rightarrow> bool" where
  "elapsed_ok s \<longleftrightarrow>
     (\<forall>k < length (instances s). elapsed_at (workers s ! k) (instances s ! k))"

text \<open>
  The recorded durations when the lower bound of the range is \<open>lo\<close>: never negative
  (for \<open>lo \<ge> 0\<close>), and at least \<open>lo\<close> inside a run.
\<close>

definition durations_ok :: "int \<Rightarrow> state \<Rightarrow> bool" where
  "durations_ok lo s \<longleftrightarrow>
     t1 s = lo \<and>
     (\<forall>k < length (instances s).
        0 \<le> currDungeonDuration (instances s ! k) \<and>
        (in_run (workers s ! k) \<longrightarrow> lo \<le> currDungeonDuration (instances s ! k)))"

text \<open>Every \<open>totalTime\<close> is a value of a 32-bit \<open>int\<close>.\<close>

definition totalTime_ok :: "state \<Rightarrow> bool" where
  "totalTime_ok s \<longleftrightarrow>
     list_all (\<lambda>inst. - 2147483648 \<le> totalTime inst \<and> totalTime inst \<le> 2147483647)
       (instances s)"

text \<open>
  Shorthand for the states of Scenario A (one instance with id 1, duration range
  \<open>[2, 2]\<close>): the instance by its six mutable fields, the state by its pool
  (\<open>tanks = healers = p\<close>, \<open>dps = q\<close>), stop flag, instance and control points.
\<close>

abbreviation slotA :: "bool \<Rightarrow> bool \<Rightarrow> int \<Rightarrow> int \<Rightarrow> int \<Rightarrow> int \<Rightarrow> Instance" where
  "slotA hp rn ps tt el du \<equiv>
     \<lparr>inst_id = 1, hasParty = hp, running = rn, partiesServed = ps, totalTime = tt,
      currentTimeElapsed = el, currDungeonDuration = du\<rparr>"

abbreviation scenA :: "int \<Rightarrow> int \<Rightarrow> bool \<Rightarrow> Instance \<Rightarrow> worker_pc \<Rightarrow> sched_pc \<Rightarrow> state" where
  "scenA p q sf inst pc spc \<equiv>
     \<lparr>tanks = p, healers = p, dps = q, t1 = 2, t2 = 2, stopFlag = sf,
      instances = [inst], workers = [pc], scheduler = spc\<rparr>"

section \<open>Effects of the steps\<close>

lemma int32_range: "- 2147483648 \<le> int32 x \<and> int32 x \<le> 2147483647"
proof -
  have "0 \<le> (x + 2147483648) mod 4294967296"
    and "(x + 2147483648) mod 4294967296 < 4294967296"
    by simp_all
  then show ?thesis
    unfolding int32_def by linarith
qed

lemma int32_id: "- 2147483648 \<le> x \<Longrightarrow> x \<le> 2147483647 \<Longrightarrow> int32 x = x"
  by (simp add: int32_def)

lemma sum_list_map_update:
  fixes f :: "'a \<Rightarrow> int"
  shows "k < length xs \<Longrightarrow> sum_list (map f (xs[k := x])) = sum_list (map f xs) - f (xs ! k) + f x"
  by (induction xs arbitrary: k) (auto split: nat.splits)

lemma assign_loop_cases:
  "assign_loop k s = (s', b) \<Longrightarrow>
     (\<not> b \<and> s' = s \<and>
        (\<not> (tanks s \<ge> 1 \<and> healers s \<ge> 1 \<and> dps s \<ge> 3)
         \<or> (\<forall>m. k \<le> m \<and> m < length (instances s) \<longrightarrow>
               hasParty (instances s ! m) \<or> running (instances s ! m))))
   \<or> (b \<and> tanks s \<ge> 1 \<and> healers s \<ge> 1 \<and> dps s \<ge> 3 \<and>
        (\<exists>j. k \<le> j \<and> j < length (instances s)
           \<and> \<not> hasParty (instances s ! j) \<and> \<not> running (instances s ! j)
           \<and> (\<forall>m. k \<le> m \<and> m < j \<longrightarrow>
                 hasParty (instances s ! m) \<or> running (instances s ! m))
           \<and> s' = s\<lparr>tanks := tanks s - 1, healers := healers s - 1, dps := dps s - 3,
                     instances := (instances s)[j := (instances s ! j)\<lparr>hasParty := True\<rparr>]\<rparr>))"
proof (induction k s rule: assign_loop.induct)
  case (1 k s)
  show ?case
  proof (cases "k < length (instances s)")
    case False
    with "1.prems" show ?thesis by (auto simp add: assign_loop.simps [of k s])
  next
    case inb: True
    show ?thesis
    proof (cases "\<not> hasParty (instances s ! k) \<and> \<not> running (instances s ! k)
           \<and> tanks s \<ge> 1 \<and> healers s \<ge> 1 \<and> dps s \<ge> 3")
      case True
      with inb "1.prems" have "b" and
        "s' = s\<lparr>tanks := tanks s - 1, healers := healers s - 1, dps := dps s - 3,
                     instances := (instances s)[k := (instances s ! k)\<lparr>hasParty := True\<rparr>]\<rparr>"
        by (simp_all add: assign_loop.simps [of k s] Let_def)
      with True inb show ?thesis
        by (intro disjI2) (auto intro!: exI [of _ k])
    next
      case False
      with inb "1.prems" have rec: "assign_loop (k + 1) s = (s', b)"
        by (simp add: assign_loop.simps [of k s] Let_def)
      from "1.IH" [OF inb refl False rec] consider
        (none) "\<not> b" "s' = s"
          "\<not> (tanks s \<ge> 1 \<and> healers s \<ge> 1 \<and> dps s \<ge> 3)
         \<or> (\<forall>m. k + 1 \<le> m \<and> m < length (instances s) \<longrightarrow>
               hasParty (instances s ! m) \<or> running (instances s ! m))"
      | (some) j where "b" "1 \<le> tanks s" "1 \<le> healers s" "3 \<le> dps s" "k + 1 \<le> j"
          "j < length (instances s)"
          "\<not> hasParty (instances s ! j)" "\<not> running (instances s ! j)"
          "\<forall>m. k + 1 \<le> m \<and> m < j \<longrightarrow> hasParty (instances s ! m) \<or> running (instances s ! m)"
          "s' = s\<lparr>tanks := tanks s - 1, healers := healers s - 1, dps := dps s - 3,
                     instances := (instances s)[j := (instances s ! j)\<lparr>hasParty := True\<rparr>]\<rparr>"
        by blast
      then show ?thesis
      proof cases
        case none
        from none(3) False
        have "\<not> (tanks s \<ge> 1 \<and> healers s \<ge> 1 \<and> dps s \<ge> 3)
         \<or> (\<forall>m. k \<le> m \<and> m < length (instances s) \<longrightarrow>
               hasParty (instances s ! m) \<or> running (instances s ! m))"
          by (metis Suc_eq_plus1 Suc_leI le_neq_implies_less)
        with none(1,2) show ?thesis by blast
      next
        case some
        from some(9) False some(2,3,4)
        have "\<forall>m. k \<le> m \<and> m < j \<longrightarrow> hasParty (instances s ! m) \<or> running (instances s ! m)"
          by (metis Suc_eq_plus1 Suc_leI le_neq_implies_less)
        moreover from some(5) have "k \<le> j" by simp
        ultimately show ?thesis using some(1,2,3,4,6,7,8,10)
          by (intro disjI2) (auto intro!: exI [of _ j])
      qed
    qed
  qed
qed

lemma run_invariant:
  assumes "P s0" and "\<And>e s s'. P s \<Longrightarrow> step e s = Some s' \<Longrightarrow> P s'"
    and "run es s0 = Some s"
  shows "P s"
  using assms(1,3)
proof (induction es arbitrary: s0)
  case Nil
  then show ?case by simp
next
  case (Cons e es)
  then show ?case by (auto split: option.splits intro: assms(2))
qed

lemma sched_wake_effect:
  assumes "step SchedWake s = Some s'"
  shows "workers s' = workers s \<and> t1 s' = t1 s \<and> t2 s' = t2 s \<and>
    ((instances s' = instances s \<and> tanks s' = tanks s \<and> healers s' = healers s
        \<and> dps s' = dps s)
     \<or> (\<exists>j. j < length (instances s)
           \<and> \<not> hasParty (instances s ! j) \<and> \<not> running (instances s ! j)
           \<and> (\<forall>m. m < j \<longrightarrow> hasParty (instances s ! m) \<or> running (instances s ! m))
           \<and> tanks s \<ge> 1 \<and> healers s \<ge> 1 \<and> dps s \<ge> 3
           \<and> instances s' = (instances s)[j := (instances s ! j)\<lparr>hasParty := True\<rparr>]
           \<and> tanks s' = tanks s - 1 \<and> healers s' = healers s - 1 \<and> dps s' = dps s - 3))"
proof (cases "stopFlag s")
  case True
  with assms show ?thesis by (auto simp: sched_cycle_def split: if_splits)
next
  case False
  obtain s1 b where al: "assign_loop 0 s = (s1, b)" by (cases "assign_loop 0 s")
  from assms False al have eq: "workers s' = workers s1" "t1 s' = t1 s1" "t2 s' = t2 s1"
    "instances s' = instances s1" "tanks s' = tanks s1" "healers s' = healers s1" "dps s' = dps s1"
    by (auto simp: sched_cycle_def Let_def split: if_splits)
  from assign_loop_cases [OF al] show ?thesis
  proof (elim disjE)
    assume "\<not> b \<and> s1 = s \<and> (\<not> (1 \<le> tanks s \<and> 1 \<le> healers s \<and> 3 \<le> dps s) \<or>
     (\<forall>m. 0 \<le> m \<and> m < length (instances s) \<longrightarrow>
          hasParty (instances s ! m) \<or> running (instances s ! m)))"
    with eq show ?thesis by simp
  next
    assume "b \<and> 1 \<le> tanks s \<and> 1 \<le> healers s \<and> 3 \<le> dps s \<and>
    (\<exists>j\<ge>0. j < length (instances s) \<and> \<not> hasParty (instances s ! j) \<and>
        \<not> running (instances s ! j) \<and>
        (\<forall>m. 0 \<le> m \<and> m < j \<longrightarrow> hasParty (instances s ! m) \<or> running (instances s ! m)) \<and>
        s1 = s \<lparr>tanks := tanks s - 1, healers := healers s - 1, dps := dps s - 3,
               instances := (instances s)[j := (instances s ! j)\<lparr>hasParty := True\<rparr>]\<rparr>)"
    then obtain j where j: "j < length (instances s)" "\<not> hasParty (instances s ! j)"
        "\<not> running (instances s ! j)"
        "\<forall>m. m < j \<longrightarrow> hasParty (instances s ! m) \<or> running (instances s ! m)"
        "1 \<le> tanks s" "1 \<le> healers s" "3 \<le> dps s"
        "s1 = s \<lparr>tanks := tanks s - 1, healers := healers s - 1, dps := dps s - 3,
               instances := (instances s)[j := (instances s ! j)\<lparr>hasParty := True\<rparr>]\<rparr>"
      by auto
    have "\<exists>j. j < length (instances s)
           \<and> \<not> hasParty (instances s ! j) \<and> \<not> running (instances s ! j)
           \<and> (\<forall>m. m < j \<longrightarrow> hasParty (instances s ! m) \<or> running (instances s ! m))
           \<and> tanks s \<ge> 1 \<and> healers s \<ge> 1 \<and> dps s \<ge> 3
           \<and> instances s' = (instances s)[j := (instances s ! j)\<lparr>hasParty := True\<rparr>]
           \<and> tanks s' = tanks s - 1 \<and> healers s' = healers s - 1 \<and> dps s' = dps s - 3"
      using j eq by (intro exI [of _ j]) simp
    with eq j(8) show ?thesis by simp
  qed
qed

lemma backoff_end_effect:
  "step SchedBackoffEnd s = Some s' \<Longrightarrow> s' = s\<lparr>scheduler := SchedWait\<rparr>"
  by (simp split: if_splits)

lemma instance_wake_effect:
  assumes "step (InstWake k d) s = Some s'"
  shows "k < length (instances s) \<and> k < length (workers s) \<and> workers s ! k = AtWait \<and>
    ((stopFlag s \<and> s' = s\<lparr>workers := (workers s)[k := Exited]\<rparr>)
     \<or> (\<not> stopFlag s \<and> hasParty (instances s ! k) \<and> t1 s \<le> d \<and> d \<le> t2 s \<and>
         s' = s\<lparr>instances := (instances s)
                       [k := (instances s ! k)\<lparr>running := True, currDungeonDuration := d\<rparr>],
                  workers := (workers s)[k := FirstTick d]\<rparr>))"
  using assms by (auto simp: instance_wake_def split: if_splits)

lemma instance_tick_effect:
  assumes "step (InstTick k) s = Some s'"
  shows "k < length (instances s) \<and> k < length (workers s) \<and>
    (\<exists>d i. (workers s ! k = FirstTick d \<and> i = 1 \<or> (\<exists>i0. workers s ! k = LoopHead d i0 \<and> i0 < d \<and> i = i0 + 1)) \<and>
       s' = s\<lparr>instances := (instances s)
                 [k := (instances s ! k)\<lparr>currentTimeElapsed := currentTimeElapsed (instances s ! k) + 1\<rparr>],
               workers := (workers s)[k := LoopHead d i]\<rparr>)"
  using assms by (auto simp: instance_tick_def Let_def split: if_splits worker_pc.splits)

lemma instance_complete_effect:
  assumes "step (InstComplete k) s = Some s'"
  shows "k < length (instances s) \<and> k < length (workers s) \<and>
    (\<exists>d i. workers s ! k = LoopHead d i \<and> \<not> i < d \<and>
       s' = s\<lparr>instances := (instances s)
                 [k := (instances s ! k)\<lparr>running := False, hasParty := False,
                        partiesServed := partiesServed (instances s ! k) + 1,
                        totalTime := int32 (totalTime (instances s ! k) + d),
                        currentTimeElapsed := 0\<rparr>],
               workers := (workers s)[k := (if stopFlag s then Exited else AtWait)]\<rparr>)"
  using assms by (auto simp: instance_complete_def Let_def split: if_splits worker_pc.splits)

section \<open>Invariants of every run\<close>

lemma consistent_init: "consistent (init_state n ta he dp lo hi)"
  by (simp add: consistent_def init_state_def new_Instance_def)

lemma consistent_step:
  assumes "consistent s" and "step e s = Some s'"
  shows "consistent s'"
proof (cases e)
  case SchedWake
  with assms(2) have "step SchedWake s = Some s'" by simp
  from sched_wake_effect [OF this] assms(1) show ?thesis
    by (auto simp: consistent_def nth_list_update split: if_splits)
next
  case SchedBackoffEnd
  with assms show ?thesis by (auto simp: consistent_def split: if_splits)
next
  case (InstWake k d)
  with assms(2) have "step (InstWake k d) s = Some s'" by simp
  from instance_wake_effect [OF this] assms(1) show ?thesis
    by (auto simp: consistent_def nth_list_update split: if_splits)
next
  case (InstTick k)
  with assms(2) have "step (InstTick k) s = Some s'" by simp
  from instance_tick_effect [OF this] assms(1) show ?thesis
    by (auto simp: consistent_def nth_list_update split: if_splits)
next
  case (InstComplete k)
  with assms(2) have "step (InstComplete k) s = Some s'" by simp
  from instance_complete_effect [OF this] assms(1) show ?thesis
    by (auto simp: consistent_def nth_list_update split: if_splits)
qed

lemma consistent_run:
  "run es (init_state n ta he dp lo hi) = Some s \<Longrightarrow> consistent s"
  by (rule run_invariant [where P = consistent, OF consistent_init consistent_step])

lemma served_init: "served (init_state n ta he dp lo hi) = 0"
  by (simp add: served_def init_state_def new_Instance_def comp_def)

lemma in_flight_init: "in_flight (init_state n ta he dp lo hi) = 0"
  by (simp add: in_flight_def init_state_def new_Instance_def comp_def)

lemma conserved_step:
  assumes "conserved ta he dp s" and "step e s = Some s'"
  shows "conserved ta he dp s'"
proof -
  from assms have c: "consistent s" "consistent s'"
    by (auto simp: conserved_def intro: consistent_step)
  show ?thesis
  proof (cases e)
    case SchedWake
    with assms(2) have "step SchedWake s = Some s'" by simp
    from sched_wake_effect [OF this] assms(1) c(2) show ?thesis
      by (auto simp: conserved_def served_def in_flight_def sum_list_map_update)
  next
    case SchedBackoffEnd
    with assms c(2) show ?thesis
      by (auto simp: conserved_def served_def in_flight_def split: if_splits)
  next
    case (InstWake k d)
    with assms(2) have "step (InstWake k d) s = Some s'" by simp
    from instance_wake_effect [OF this] assms(1) c(2) show ?thesis
      by (auto simp: conserved_def served_def in_flight_def sum_list_map_update)
  next
    case (InstTick k)
    with assms(2) have "step (InstTick k) s = Some s'" by simp
    from instance_tick_effect [OF this] assms(1) c(2) show ?thesis
      by (auto simp: conserved_def served_def in_flight_def sum_list_map_update)
  next
    case (InstComplete k)
    with assms(2) have st: "step (InstComplete k) s = Some s'" by simp
    from instance_complete_effect [OF st] c(1) have "hasParty (instances s ! k)"
      by (auto simp: consistent_def)
    with instance_complete_effect [OF st] assms(1) c(2) show ?thesis
      by (auto simp: conserved_def served_def in_flight_def sum_list_map_update)
  qed
qed

lemma conserved_run:
  "run es (init_state n ta he dp lo hi) = Some s \<Longrightarrow> conserved ta he dp s"
proof (rule run_invariant [where P = "conserved ta he dp"])
  show "conserved ta he dp (init_state n ta he dp lo hi)"
    by (simp add: conserved_def consistent_init served_init in_flight_init) (simp add: init_state_def)
qed (auto intro: conserved_step)

lemma ids_ascending_init: "ids_ascending (init_state n ta he dp lo hi)"
  by (simp add: ids_ascending_def init_state_def new_Instance_def)

lemma ids_ascending_step:
  assumes "ids_ascending s" and "step e s = Some s'"
  shows "ids_ascending s'"
proof (cases e)
  case SchedWake
  with assms(2) have "step SchedWake s = Some s'" by simp
  from sched_wake_effect [OF this] assms(1) show ?thesis
    by (auto simp: ids_ascending_def nth_list_update)
next
  case SchedBackoffEnd
  with assms show ?thesis by (auto simp: ids_ascending_def split: if_splits)
next
  case (InstWake k d)
  with assms(2) have "step (InstWake k d) s = Some s'" by simp
  from instance_wake_effect [OF this] assms(1) show ?thesis
    by (auto simp: ids_ascending_def nth_list_update)
next
  case (InstTick k)
  with assms(2) have "step (InstTick k) s = Some s'" by simp
  from instance_tick_effect [OF this] assms(1) show ?thesis
    by (auto simp: ids_ascending_def nth_list_update)
next
  case (InstComplete k)
  with assms(2) have "step (InstComplete k) s = Some s'" by simp
  from instance_complete_effect [OF this] assms(1) show ?thesis
    by (auto simp: ids_ascending_def nth_list_update)
qed

lemma ids_ascending_run:
  "run es (init_state n ta he dp lo hi) = Some s \<Longrightarrow> ids_ascending s"
  by (rule run_invariant [where P = ids_ascending, OF ids_ascending_init ids_ascending_step])

section \<open>Concrete runs used below\<close>

lemma run_two_instances:
  "run [SchedWake, InstWake 0 1, InstTick 0, InstComplete 0, SchedWake] (init_state 2 2 2 6 1 1)
  = Some \<lparr>tanks = 0, healers = 0, dps = 0, t1 = 1, t2 = 1, stopFlag = False,
          instances =
            [\<lparr>inst_id = 1, hasParty = True, running = False, partiesServed = 1,
                totalTime = 1, currentTimeElapsed = 0, currDungeonDuration = 1\<rparr>,
             \<lparr>inst_id = 2, hasParty = False, running = False, partiesServed = 0,
                totalTime = 0, currentTimeElapsed = 0, currDungeonDuration = 0\<rparr>],
          workers = [AtWait, AtWait], scheduler = SchedWait\<rparr>"
  by (simp add: init_state_def new_Instance_def upto.simps sched_wake_pred_def sched_cycle_def
      assign_loop.simps instance_wake_def instance_tick_def instance_complete_def Let_def
      int32_def)

lemma run_started:
  "run [SchedWake, InstWake 0 1] (init_state 2 2 2 6 1 1)
  = Some \<lparr>tanks = 1, healers = 1, dps = 3, t1 = 1, t2 = 1, stopFlag = False,
          instances =
            [\<lparr>inst_id = 1, hasParty = True, running = True, partiesServed = 0,
                totalTime = 0, currentTimeElapsed = 0, currDungeonDuration = 1\<rparr>,
             \<lparr>inst_id = 2, hasParty = False, running = False, partiesServed = 0,
                totalTime = 0, currentTimeElapsed = 0, currDungeonDuration = 0\<rparr>],
          workers = [FirstTick 1, AtWait], scheduler = SchedWait\<rparr>"
  by (simp add: init_state_def new_Instance_def upto.simps sched_wake_pred_def sched_cycle_def
      assign_loop.simps instance_wake_def Let_def)

section \<open>Scenario C: no instances\<close>

text \<open>
  With no instance and a pool that cannot form a party, the first pass of the scheduler
  sets the stop flag and returns.
\<close>

lemma no_instances_empty_pool_shutdown:
  "\<not> (1 \<le> ta \<and> 1 \<le> he \<and> 3 \<le> dp) \<Longrightarrow>
   step SchedWake (init_state 0 ta he dp lo hi)
     = Some ((init_state 0 ta he dp lo hi)\<lparr>stopFlag := True, scheduler := SchedExited\<rparr>)"
  by (auto simp add: init_state_def sched_wake_pred_def sched_cycle_def assign_loop.simps)

lemma no_instances_full_pool_step:
  assumes "instances s = []" and "\<not> stopFlag s" and "scheduler s \<noteq> SchedExited"
    and "1 \<le> tanks s" "1 \<le> healers s" "3 \<le> dps s"
    and "step e s = Some s'"
  shows "instances s' = [] \<and> \<not> stopFlag s' \<and> scheduler s' \<noteq> SchedExited
    \<and> tanks s' = tanks s \<and> healers s' = healers s \<and> dps s' = dps s"
  using assms
  by (cases e)
    (auto simp: sched_cycle_def assign_loop.simps instance_wake_def instance_tick_def
      instance_complete_def split: if_splits)

text \<open>
  C1. The claim is that with an instance count of 0 the first pass of the scheduler sets
  the stop flag and returns, whatever the pool holds. The termination test of the code is
  \<open>!hasMorePlayers && !anyRunning\<close>: with no instance and a pool that still forms a
  party (\<open>tanks \<ge> 1\<close>, \<open>healers \<ge> 1\<close>, \<open>dps \<ge> 3\<close>) it is false in every pass, so
  the scheduler alternates between a pass and its backoff sleep: no run ever sets the
  stop flag, and the scheduler thread never returns.
\<close>

theorem no_instances_full_pool_never_stops:
  assumes "1 \<le> ta" and "1 \<le> he" and "3 \<le> dp"
    and "run es (init_state 0 ta he dp lo hi) = Some s"
  shows "\<not> stopFlag s \<and> scheduler s \<noteq> SchedExited"
proof -
  let ?P = "\<lambda>s. instances s = [] \<and> \<not> stopFlag s \<and> scheduler s \<noteq> SchedExited
    \<and> 1 \<le> tanks s \<and> 1 \<le> healers s \<and> 3 \<le> dps s"
  have "?P s"
  proof (rule run_invariant [where P = ?P, OF _ _ assms(4)])
    show "?P (init_state 0 ta he dp lo hi)"
      using assms(1-3) by (simp add: init_state_def)
  next
    fix e s s'
    assume "?P s" and "step e s = Some s'"
    then show "?P s'"
      using no_instances_full_pool_step [of s e s'] by simp
  qed
  then show ?thesis by simp
qed

theorem no_instances_full_pool_never_stops_witness:
  "run [SchedWake, SchedBackoffEnd, SchedWake] (init_state 0 1 1 3 0 0)
     = Some ((init_state 0 1 1 3 0 0)\<lparr>scheduler := SchedBackoff\<rparr>)
   \<and> \<not> stopFlag ((init_state 0 1 1 3 0 0)\<lparr>scheduler := SchedBackoff\<rparr>)
   \<and> scheduler ((init_state 0 1 1 3 0 0)\<lparr>scheduler := SchedBackoff\<rparr>) \<noteq> SchedExited"
proof -
  have r: "run [SchedWake, SchedBackoffEnd, SchedWake] (init_state 0 1 1 3 0 0)
     = Some ((init_state 0 1 1 3 0 0)\<lparr>scheduler := SchedBackoff\<rparr>)"
    by (simp add: init_state_def sched_wake_pred_def sched_cycle_def assign_loop.simps)
  from no_instances_full_pool_never_stops [OF _ _ _ r] r show ?thesis by simp
qed

section \<open>The pool\<close>

text \<open>
  C2. In every state that a run reaches from the initial configuration, the parties
  completed by all instances times the requirement \<open>(1, 1, 3)\<close>, plus the pool, plus
  \<open>(1, 1, 3)\<close> for every instance that holds a party (\<open>hasParty\<close>), give the initial
  pool, component by component.
\<close>

theorem resources_conserved:
  assumes "run es (init_state n ta he dp lo hi) = Some s"
  shows "served s * 1 + tanks s + in_flight s * 1 = ta
    \<and> served s * 1 + healers s + in_flight s * 1 = he
    \<and> served s * 3 + dps s + in_flight s * 3 = dp"
  using conserved_run [OF assms] by (simp add: conserved_def)

theorem resources_conserved_witness:
  "\<exists>s. run [SchedWake, InstWake 0 1, InstTick 0, InstComplete 0, SchedWake]
          (init_state 2 2 2 6 1 1) = Some s
     \<and> served s = 1 \<and> in_flight s = 1 \<and> tanks s = 0 \<and> healers s = 0 \<and> dps s = 0
     \<and> served s * 1 + tanks s + in_flight s * 1 = 2
     \<and> served s * 1 + healers s + in_flight s * 1 = 2
     \<and> served s * 3 + dps s + in_flight s * 3 = 6"
  using resources_conserved [OF run_two_instances] run_two_instances
  by (simp add: served_def in_flight_def)

lemma pool_nonneg_step:
  assumes "0 \<le> tanks s \<and> 0 \<le> healers s \<and> 0 \<le> dps s" and "step e s = Some s'"
  shows "0 \<le> tanks s' \<and> 0 \<le> healers s' \<and> 0 \<le> dps s'"
proof (cases e)
  case SchedWake
  with assms(2) have "step SchedWake s = Some s'" by simp
  from sched_wake_effect [OF this] assms(1) show ?thesis by auto
next
  case SchedBackoffEnd
  with assms show ?thesis by (auto split: if_splits)
next
  case (InstWake k d)
  with assms(2) have "step (InstWake k d) s = Some s'" by simp
  from instance_wake_effect [OF this] assms(1) show ?thesis by auto
next
  case (InstTick k)
  with assms(2) have "step (InstTick k) s = Some s'" by simp
  from instance_tick_effect [OF this] assms(1) show ?thesis by auto
next
  case (InstComplete k)
  with assms(2) have "step (InstComplete k) s = Some s'" by simp
  from instance_complete_effect [OF this] assms(1) show ?thesis by auto
qed

text \<open>
  C3. When the three initial counters are not negative, none of them is negative in any
  state that a run reaches.
\<close>

theorem pool_never_negative:
  assumes "0 \<le> ta" and "0 \<le> he" and "0 \<le> dp"
    and "run es (init_state n ta he dp lo hi) = Some s"
  shows "0 \<le> tanks s \<and> 0 \<le> healers s \<and> 0 \<le> dps s"
proof (rule run_invariant [where P = "\<lambda>s. 0 \<le> tanks s \<and> 0 \<le> healers s \<and> 0 \<le> dps s", OF _ _ assms(4)])
  show "0 \<le> tanks (init_state n ta he dp lo hi) \<and> 0 \<le> healers (init_state n ta he dp lo hi)
    \<and> 0 \<le> dps (init_state n ta he dp lo hi)"
    using assms(1-3) by (simp add: init_state_def)
qed (rule pool_nonneg_step)

theorem pool_never_negative_witness:
  "(0::int) \<le> 2 \<and> (0::int) \<le> 6
   \<and> (\<exists>s. run [SchedWake, InstWake 0 1, InstTick 0, InstComplete 0, SchedWake]
            (init_state 2 2 2 6 1 1) = Some s
          \<and> 0 \<le> tanks s \<and> 0 \<le> healers s \<and> 0 \<le> dps s)"
  using pool_never_negative [OF _ _ _ run_two_instances] run_two_instances by simp

text \<open>
  The claim C4 as it is written makes the consumption depend on the pool alone. The
  source tests the pool only for a free instance
  (\<open>!instance->hasParty && !instance->running && tanks >= 1 && ...\<close>): in the state
  after the first pass from one instance and the pool \<open>(2, 2, 6)\<close> the pool is
  \<open>(1, 1, 3)\<close>, the only instance holds a party, and the assignment loop consumes
  nothing.
\<close>

theorem pool_sufficient_no_free_instance_counterexample:
  "run [SchedWake] (init_state 1 2 2 6 1 1)
     = Some \<lparr>tanks = 1, healers = 1, dps = 3, t1 = 1, t2 = 1, stopFlag = False,
          instances =
            [\<lparr>inst_id = 1, hasParty = True, running = False, partiesServed = 0,
                totalTime = 0, currentTimeElapsed = 0, currDungeonDuration = 0\<rparr>],
          workers = [AtWait], scheduler = SchedWait\<rparr>
   \<and> assign_loop 0
        \<lparr>tanks = 1, healers = 1, dps = 3, t1 = 1, t2 = 1, stopFlag = False,
          instances =
            [\<lparr>inst_id = 1, hasParty = True, running = False, partiesServed = 0,
                totalTime = 0, currentTimeElapsed = 0, currDungeonDuration = 0\<rparr>],
          workers = [AtWait], scheduler = SchedWait\<rparr>
     = (\<lparr>tanks = 1, healers = 1, dps = 3, t1 = 1, t2 = 1, stopFlag = False,
          instances =
            [\<lparr>inst_id = 1, hasParty = True, running = False, partiesServed = 0,
                totalTime = 0, currentTimeElapsed = 0, currDungeonDuration = 0\<rparr>],
          workers = [AtWait], scheduler = SchedWait\<rparr>, False)"
  by (simp add: init_state_def new_Instance_def upto.simps sched_wake_pred_def sched_cycle_def
      assign_loop.simps Let_def)

text \<open>
  C4, amended. The assignment loop of one pass consumes from the pool exactly when
  \<open>tanks \<ge> 1\<close>, \<open>healers \<ge> 1\<close> and \<open>dps \<ge> 3\<close> hold before it and some instance is free
  (\<open>hasParty\<close> and \<open>running\<close> both false); it then debits exactly \<open>(1, 1, 3)\<close>; and
  when it does not consume, it changes nothing at all: the three counters, and the whole
  state, are as they were.
\<close>

theorem pool_consumption_needs_free_instance:
  assumes "assign_loop 0 s = (s', partyAssigned)"
  shows "(partyAssigned \<longleftrightarrow>
            (tanks s \<ge> 1 \<and> healers s \<ge> 1 \<and> dps s \<ge> 3)
            \<and> list_ex (\<lambda>inst. \<not> hasParty inst \<and> \<not> running inst) (instances s))
    \<and> (partyAssigned \<longrightarrow>
          tanks s' = tanks s - 1 \<and> healers s' = healers s - 1 \<and> dps s' = dps s - 3)
    \<and> (\<not> partyAssigned \<longrightarrow>
          tanks s' = tanks s \<and> healers s' = healers s \<and> dps s' = dps s \<and> s' = s)"
proof -
  have free: "list_ex (\<lambda>inst. \<not> hasParty inst \<and> \<not> running inst) (instances s) \<longleftrightarrow>
      (\<exists>m < length (instances s). \<not> hasParty (instances s ! m) \<and> \<not> running (instances s ! m))"
    unfolding list_ex_length by blast
  from assign_loop_cases [OF assms] consider
    (none) "\<not> partyAssigned" "s' = s"
      "\<not> (tanks s \<ge> 1 \<and> healers s \<ge> 1 \<and> dps s \<ge> 3)
       \<or> (\<forall>m. m < length (instances s) \<longrightarrow>
             hasParty (instances s ! m) \<or> running (instances s ! m))"
  | (some) j where "partyAssigned" "tanks s \<ge> 1" "healers s \<ge> 1" "dps s \<ge> 3"
      "j < length (instances s)" "\<not> hasParty (instances s ! j)" "\<not> running (instances s ! j)"
      "s' = s\<lparr>tanks := tanks s - 1, healers := healers s - 1, dps := dps s - 3,
               instances := (instances s)[j := (instances s ! j)\<lparr>hasParty := True\<rparr>]\<rparr>"
    by auto
  then show ?thesis
  proof cases
    case none
    then show ?thesis unfolding free by auto
  next
    case some
    then show ?thesis unfolding free by auto
  qed
qed

theorem pool_consumption_needs_free_instance_witness:
  "assign_loop 0 (init_state 1 1 1 3 2 2)
       = ((init_state 1 1 1 3 2 2)
            \<lparr>tanks := 0, healers := 0, dps := 0,
             instances := [(new_Instance 1)\<lparr>hasParty := True\<rparr>]\<rparr>, True)
   \<and> tanks (init_state 1 1 1 3 2 2) \<ge> 1 \<and> healers (init_state 1 1 1 3 2 2) \<ge> 1
   \<and> dps (init_state 1 1 1 3 2 2) \<ge> 3
   \<and> list_ex (\<lambda>inst. \<not> hasParty inst \<and> \<not> running inst) (instances (init_state 1 1 1 3 2 2))
   \<and> assign_loop 0 ((init_state 1 1 1 3 2 2)\<lparr>dps := 2\<rparr>)
       = ((init_state 1 1 1 3 2 2)\<lparr>dps := 2\<rparr>, False)
   \<and> \<not> dps ((init_state 1 1 1 3 2 2)\<lparr>dps := 2\<rparr>) \<ge> 3"
proof -
  have al: "assign_loop 0 (init_state 1 1 1 3 2 2)
       = ((init_state 1 1 1 3 2 2)
            \<lparr>tanks := 0, healers := 0, dps := 0,
             instances := [(new_Instance 1)\<lparr>hasParty := True\<rparr>]\<rparr>, True)"
    by (simp add: init_state_def new_Instance_def upto.simps assign_loop.simps Let_def)
  have al2: "assign_loop 0 ((init_state 1 1 1 3 2 2)\<lparr>dps := 2\<rparr>)
       = ((init_state 1 1 1 3 2 2)\<lparr>dps := 2\<rparr>, False)"
    by (simp add: init_state_def new_Instance_def upto.simps assign_loop.simps Let_def)
  from pool_consumption_needs_free_instance [OF al]
    pool_consumption_needs_free_instance [OF al2] al al2
  show ?thesis by simp
qed

section \<open>The assignment policy\<close>

text \<open>
  C6. One pass of the scheduler, in any state that a run reaches, either leaves the
  instances and the pool as they were, or assigns one party: it debits \<open>(1, 1, 3)\<close> once
  and sets \<open>hasParty\<close> of one instance, which was free and has the smallest position and
  the smallest id among the free instances; every other instance is left as it was.
\<close>

theorem one_assignment_per_cycle:
  assumes "run es (init_state n ta he dp lo hi) = Some s"
    and "step SchedWake s = Some s'"
  shows "(instances s' = instances s \<and> tanks s' = tanks s \<and> healers s' = healers s
            \<and> dps s' = dps s)
     \<or> (\<exists>j < length (instances s).
           \<not> hasParty (instances s ! j) \<and> \<not> running (instances s ! j)
           \<and> (\<forall>m < length (instances s).
                 \<not> hasParty (instances s ! m) \<and> \<not> running (instances s ! m) \<longrightarrow>
                   j \<le> m \<and> inst_id (instances s ! j) \<le> inst_id (instances s ! m))
           \<and> instances s' = (instances s)[j := (instances s ! j)\<lparr>hasParty := True\<rparr>]
           \<and> tanks s' = tanks s - 1 \<and> healers s' = healers s - 1 \<and> dps s' = dps s - 3)"
proof -
  have ids: "\<forall>k < length (instances s). inst_id (instances s ! k) = int k + 1"
    using ids_ascending_run [OF assms(1)] by (simp add: ids_ascending_def)
  from sched_wake_effect [OF assms(2)] consider
    (none) "instances s' = instances s" "tanks s' = tanks s" "healers s' = healers s"
      "dps s' = dps s"
  | (some) j where "j < length (instances s)" "\<not> hasParty (instances s ! j)"
      "\<not> running (instances s ! j)"
      "\<forall>m. m < j \<longrightarrow> hasParty (instances s ! m) \<or> running (instances s ! m)"
      "instances s' = (instances s)[j := (instances s ! j)\<lparr>hasParty := True\<rparr>]"
      "tanks s' = tanks s - 1" "healers s' = healers s - 1" "dps s' = dps s - 3"
    by blast
  then show ?thesis
  proof cases
    case none
    then show ?thesis by simp
  next
    case some
    have "\<forall>m < length (instances s).
            \<not> hasParty (instances s ! m) \<and> \<not> running (instances s ! m) \<longrightarrow>
              j \<le> m \<and> inst_id (instances s ! j) \<le> inst_id (instances s ! m)"
    proof (intro allI impI)
      fix m
      assume m: "m < length (instances s)"
        and free: "\<not> hasParty (instances s ! m) \<and> \<not> running (instances s ! m)"
      from some(4) free have "j \<le> m" by (meson not_le)
      with ids m some(1) show "j \<le> m \<and> inst_id (instances s ! j) \<le> inst_id (instances s ! m)"
        by simp
    qed
    with some show ?thesis by blast
  qed
qed

theorem one_assignment_per_cycle_witness:
  "\<exists>s s'. run [SchedWake, InstWake 0 1] (init_state 2 2 2 6 1 1) = Some s
     \<and> step SchedWake s = Some s'
     \<and> instances s' = (instances s)[1 := (instances s ! 1)\<lparr>hasParty := True\<rparr>]
     \<and> instances s' \<noteq> instances s
     \<and> tanks s' = tanks s - 1 \<and> healers s' = healers s - 1 \<and> dps s' = dps s - 3"
proof -
  let ?s = "\<lparr>tanks = 1, healers = 1, dps = 3, t1 = 1, t2 = 1, stopFlag = False,
          instances =
            [\<lparr>inst_id = 1, hasParty = True, running = True, partiesServed = 0,
                totalTime = 0, currentTimeElapsed = 0, currDungeonDuration = 1\<rparr>,
             \<lparr>inst_id = 2, hasParty = False, running = False, partiesServed = 0,
                totalTime = 0, currentTimeElapsed = 0, currDungeonDuration = 0\<rparr>],
          workers = [FirstTick 1, AtWait], scheduler = SchedWait\<rparr>"
  let ?s' = "?s\<lparr>tanks := 0, healers := 0, dps := 0,
       instances := (instances ?s)[1 := (instances ?s ! 1)\<lparr>hasParty := True\<rparr>]\<rparr>"
  have st: "step SchedWake ?s = Some ?s'"
    by (simp add: sched_wake_pred_def sched_cycle_def assign_loop.simps Let_def)
  from one_assignment_per_cycle [OF run_started st] run_started st show ?thesis
    by simp
qed

section \<open>The flags of an instance\<close>

text \<open>
  C9. In every state that a run reaches, an instance that is \<open>running\<close> holds a party.
\<close>

theorem running_implies_hasParty:
  assumes "run es (init_state n ta he dp lo hi) = Some s"
    and "k < length (instances s)" and "running (instances s ! k)"
  shows "hasParty (instances s ! k)"
  using consistent_run [OF assms(1)] assms(2,3) by (simp add: consistent_def)

theorem running_implies_hasParty_witness:
  "\<exists>s. run [SchedWake, InstWake 0 1] (init_state 2 2 2 6 1 1) = Some s
     \<and> 0 < length (instances s) \<and> running (instances s ! 0) \<and> hasParty (instances s ! 0)"
  using running_implies_hasParty [OF run_started, of 0] run_started by simp

section \<open>The elapsed counter of a run\<close>

lemma elapsed_at_hasParty [simp]:
  "elapsed_at pc (inst\<lparr>hasParty := b\<rparr>) = elapsed_at pc inst"
  by (cases pc) simp_all

lemma elapsed_ok_init: "elapsed_ok (init_state n ta he dp lo hi)"
  by (simp add: elapsed_ok_def init_state_def new_Instance_def)

lemma elapsed_ok_step:
  assumes "elapsed_ok s" and "step e s = Some s'"
  shows "elapsed_ok s'"
proof (cases e)
  case SchedWake
  with assms(2) have "step SchedWake s = Some s'" by simp
  from sched_wake_effect [OF this] assms(1) show ?thesis
    by (auto simp: elapsed_ok_def nth_list_update)
next
  case SchedBackoffEnd
  with assms show ?thesis by (auto simp: elapsed_ok_def split: if_splits)
next
  case (InstWake k d)
  with assms(2) have st: "step (InstWake k d) s = Some s'" by simp
  from instance_wake_effect [OF st] have "k < length (instances s)" by simp
  with assms(1) have "elapsed_at (workers s ! k) (instances s ! k)"
    and "\<forall>j < length (instances s). j \<noteq> k \<longrightarrow> elapsed_at (workers s ! j) (instances s ! j)"
    unfolding elapsed_ok_def by blast+
  with instance_wake_effect [OF st] show ?thesis
    by (auto simp: elapsed_ok_def nth_list_update)
next
  case (InstTick k)
  with assms(2) have st: "step (InstTick k) s = Some s'" by simp
  from instance_tick_effect [OF st] have "k < length (instances s)" by simp
  with assms(1) have "elapsed_at (workers s ! k) (instances s ! k)"
    and "\<forall>j < length (instances s). j \<noteq> k \<longrightarrow> elapsed_at (workers s ! j) (instances s ! j)"
    unfolding elapsed_ok_def by blast+
  with instance_tick_effect [OF st] show ?thesis
    by (auto simp: elapsed_ok_def nth_list_update)
next
  case (InstComplete k)
  with assms(2) have st: "step (InstComplete k) s = Some s'" by simp
  from instance_complete_effect [OF st] assms(1) show ?thesis
    by (auto simp: elapsed_ok_def nth_list_update)
qed

lemma elapsed_ok_run:
  "run es (init_state n ta he dp lo hi) = Some s \<Longrightarrow> elapsed_ok s"
  by (rule run_invariant [where P = elapsed_ok, OF elapsed_ok_init elapsed_ok_step])

lemma tick_run:
  assumes "k < length (instances s)" and "k < length (workers s)"
    and "workers s ! k = LoopHead d i" and "i + int m \<le> d"
  shows "run (replicate m (InstTick k)) s =
     Some (s\<lparr>instances := (instances s)
                 [k := (instances s ! k)
                    \<lparr>currentTimeElapsed := currentTimeElapsed (instances s ! k) + int m\<rparr>],
             workers := (workers s)[k := LoopHead d (i + int m)]\<rparr>)"
  using assms
proof (induction m arbitrary: s i)
  case 0
  then have "(workers s)[k := LoopHead d i] = workers s"
    by (metis list_update_id)
  then show ?case by simp
next
  case (Suc m)
  let ?s1 = "s\<lparr>instances := (instances s)
                 [k := (instances s ! k)
                    \<lparr>currentTimeElapsed := currentTimeElapsed (instances s ! k) + 1\<rparr>],
             workers := (workers s)[k := LoopHead d (i + 1)]\<rparr>"
  from Suc.prems have st: "step (InstTick k) s = Some ?s1"
    by (simp add: instance_tick_def Let_def)
  from Suc.prems have "run (replicate m (InstTick k)) ?s1 =
     Some (?s1\<lparr>instances := (instances ?s1)
                 [k := (instances ?s1 ! k)
                    \<lparr>currentTimeElapsed := currentTimeElapsed (instances ?s1 ! k) + int m\<rparr>],
             workers := (workers ?s1)[k := LoopHead d (i + 1 + int m)]\<rparr>)"
    by (intro Suc.IH) simp_all
  with st Suc.prems show ?case
    by (simp add: ac_simps)
qed

lemma first_tick_run:
  assumes "k < length (instances s)" and "k < length (workers s)"
    and "workers s ! k = FirstTick d" and "1 + int m \<le> max 1 d"
  shows "run (replicate (Suc m) (InstTick k)) s =
     Some (s\<lparr>instances := (instances s)
                 [k := (instances s ! k)
                    \<lparr>currentTimeElapsed := currentTimeElapsed (instances s ! k) + (1 + int m)\<rparr>],
             workers := (workers s)[k := LoopHead d (1 + int m)]\<rparr>)"
proof -
  let ?s1 = "s\<lparr>instances := (instances s)
                 [k := (instances s ! k)
                    \<lparr>currentTimeElapsed := currentTimeElapsed (instances s ! k) + 1\<rparr>],
             workers := (workers s)[k := LoopHead d 1]\<rparr>"
  from assms have st: "step (InstTick k) s = Some ?s1"
    by (simp add: instance_tick_def Let_def)
  from assms(4) have "m = 0 \<or> 1 + int m \<le> d" by (auto simp: max_def split: if_splits)
  then have "run (replicate m (InstTick k)) ?s1 =
     Some (?s1\<lparr>instances := (instances ?s1)
                 [k := (instances ?s1 ! k)
                    \<lparr>currentTimeElapsed := currentTimeElapsed (instances ?s1 ! k) + int m\<rparr>],
             workers := (workers ?s1)[k := LoopHead d (1 + int m)]\<rparr>)"
  proof
    assume "m = 0"
    with assms show ?thesis by simp
  next
    assume "1 + int m \<le> d"
    with assms show ?thesis by (intro tick_run) simp_all
  qed
  with st assms show ?thesis by (simp add: ac_simps)
qed

lemma run_assigned_zero:
  "run [SchedWake] (init_state 1 1 1 3 0 0)
  = Some \<lparr>tanks = 0, healers = 0, dps = 0, t1 = 0, t2 = 0, stopFlag = False,
          instances =
            [\<lparr>inst_id = 1, hasParty = True, running = False, partiesServed = 0,
                totalTime = 0, currentTimeElapsed = 0, currDungeonDuration = 0\<rparr>],
          workers = [AtWait], scheduler = SchedWait\<rparr>"
  by (simp add: init_state_def new_Instance_def upto.simps sched_wake_pred_def sched_cycle_def
      assign_loop.simps Let_def)

lemma totalTime_ok_init: "totalTime_ok (init_state n ta he dp lo hi)"
  by (simp add: totalTime_ok_def init_state_def new_Instance_def list_all_iff)

lemma totalTime_ok_step:
  assumes "totalTime_ok s" and "step e s = Some s'"
  shows "totalTime_ok s'"
proof (cases e)
  case SchedWake
  with assms(2) have "step SchedWake s = Some s'" by simp
  from sched_wake_effect [OF this] assms(1) show ?thesis
    by (auto simp: totalTime_ok_def list_all_length nth_list_update split: if_splits)
next
  case SchedBackoffEnd
  with assms show ?thesis by (auto simp: totalTime_ok_def split: if_splits)
next
  case (InstWake k d)
  with assms(2) have "step (InstWake k d) s = Some s'" by simp
  from instance_wake_effect [OF this] assms(1) show ?thesis
    by (auto simp: totalTime_ok_def list_all_length nth_list_update split: if_splits)
next
  case (InstTick k)
  with assms(2) have "step (InstTick k) s = Some s'" by simp
  from instance_tick_effect [OF this] assms(1) show ?thesis
    by (auto simp: totalTime_ok_def list_all_length nth_list_update split: if_splits)
next
  case (InstComplete k)
  with assms(2) have "step (InstComplete k) s = Some s'" by simp
  from instance_complete_effect [OF this] assms(1) show ?thesis
    using int32_range
    by (auto simp: totalTime_ok_def list_all_length nth_list_update split: if_splits)
qed

lemma totalTime_ok_run:
  "run es (init_state n ta he dp lo hi) = Some s \<Longrightarrow> totalTime_ok s"
  by (rule run_invariant [where P = totalTime_ok, OF totalTime_ok_init totalTime_ok_step])

text \<open>
  C10. In a state that a run reaches, a worker that wakes up with a party and draws the
  duration \<open>d\<close> performs exactly \<open>max 1 d\<close> increments of the elapsed counter: after
  that many the counter is \<open>max 1 d\<close>, no further increment is possible and the run
  completes; after fewer (none included) the run cannot complete. The completion adds
  \<open>d\<close> to \<open>totalTime\<close> in 32-bit arithmetic: the new value is the sum when the sum is a
  32-bit \<open>int\<close>, and the sum wrapped around otherwise. For \<open>d = 0\<close> this is one
  increment, and \<open>totalTime\<close> unchanged.
\<close>

theorem run_ticks_max_one_duration:
  assumes "run es (init_state n ta he dp lo hi) = Some s"
    and "\<not> stopFlag s"
    and "step (InstWake k d) s = Some s0"
  shows "\<exists>s1 s2. run (replicate (nat (max 1 d)) (InstTick k)) s0 = Some s1
     \<and> currentTimeElapsed (instances s1 ! k) = max 1 d
     \<and> step (InstTick k) s1 = None
     \<and> step (InstComplete k) s1 = Some s2
     \<and> totalTime (instances s2 ! k) = int32 (totalTime (instances s ! k) + d)
     \<and> (- 2147483648 \<le> totalTime (instances s ! k) + d
            \<and> totalTime (instances s ! k) + d \<le> 2147483647 \<longrightarrow>
          totalTime (instances s2 ! k) = totalTime (instances s ! k) + d)
     \<and> (d = 0 \<longrightarrow> totalTime (instances s2 ! k) = totalTime (instances s ! k))
     \<and> (\<forall>m < nat (max 1 d). \<exists>s'. run (replicate m (InstTick k)) s0 = Some s'
           \<and> currentTimeElapsed (instances s' ! k) = int m
           \<and> step (InstComplete k) s' = None)"
proof -
  from instance_wake_effect [OF assms(3)] assms(2)
  have k: "k < length (instances s)" "k < length (workers s)" "workers s ! k = AtWait"
    and s0: "s0 = s\<lparr>instances := (instances s)
                       [k := (instances s ! k)\<lparr>running := True, currDungeonDuration := d\<rparr>],
                  workers := (workers s)[k := FirstTick d]\<rparr>"
    by auto
  from elapsed_ok_run [OF assms(1)] k have e0: "currentTimeElapsed (instances s ! k) = 0"
    by (auto simp: elapsed_ok_def)
  from k s0 have k0: "k < length (instances s0)" "k < length (workers s0)"
    "workers s0 ! k = FirstTick d" "currentTimeElapsed (instances s0 ! k) = 0"
    "totalTime (instances s0 ! k) = totalTime (instances s ! k)"
    using e0 by simp_all
  define M where "M = nat (max 1 d) - 1"
  have M: "nat (max 1 d) = Suc M" "1 + int M = max 1 d"
    by (auto simp: M_def)
  let ?s1 = "s0\<lparr>instances := (instances s0)
                 [k := (instances s0 ! k)
                    \<lparr>currentTimeElapsed := currentTimeElapsed (instances s0 ! k) + (1 + int M)\<rparr>],
             workers := (workers s0)[k := LoopHead d (1 + int M)]\<rparr>"
  have r1: "run (replicate (nat (max 1 d)) (InstTick k)) s0 = Some ?s1"
    unfolding M(1) using k0 M(2) by (intro first_tick_run) simp_all
  have e1: "currentTimeElapsed (instances ?s1 ! k) = max 1 d"
    using k0 M(2) by simp
  have t1: "step (InstTick k) ?s1 = None"
    using k0 M(2) by (simp add: instance_tick_def Let_def)
  obtain s2 where c1: "step (InstComplete k) ?s1 = Some s2"
    and tt: "totalTime (instances s2 ! k) = int32 (totalTime (instances s ! k) + d)"
    using k0 M(2) by (simp add: instance_complete_def Let_def)
  from totalTime_ok_run [OF assms(1)] k(1)
  have rng: "- 2147483648 \<le> totalTime (instances s ! k)"
    "totalTime (instances s ! k) \<le> 2147483647"
    by (simp_all add: totalTime_ok_def list_all_length)
  from tt have tt_in: "- 2147483648 \<le> totalTime (instances s ! k) + d
            \<and> totalTime (instances s ! k) + d \<le> 2147483647 \<longrightarrow>
          totalTime (instances s2 ! k) = totalTime (instances s ! k) + d"
    by (simp add: int32_id)
  from tt rng have tt0: "d = 0 \<longrightarrow> totalTime (instances s2 ! k) = totalTime (instances s ! k)"
    by (simp add: int32_id)
  have before: "\<exists>s'. run (replicate m (InstTick k)) s0 = Some s'
           \<and> currentTimeElapsed (instances s' ! k) = int m
           \<and> step (InstComplete k) s' = None" if "m < nat (max 1 d)" for m
  proof (cases m)
    case 0
    with k0 show ?thesis by (simp add: instance_complete_def)
  next
    case (Suc m')
    with that have le: "1 + int m' \<le> max 1 d" and lt: "1 + int m' < d" by (auto simp: max_def split: if_splits)
    from first_tick_run [OF k0(1,2,3) le] Suc k0 lt show ?thesis
      by (simp add: instance_complete_def Let_def)
  qed
  from r1 e1 t1 c1 tt tt_in tt0 before show ?thesis by blast
qed

theorem run_ticks_max_one_duration_witness:
  "\<exists>s s0 s1 s2. run [SchedWake] (init_state 1 1 1 3 0 0) = Some s \<and> \<not> stopFlag s
     \<and> step (InstWake 0 0) s = Some s0
     \<and> run [InstTick 0] s0 = Some s1
     \<and> currentTimeElapsed (instances s1 ! 0) = 1
     \<and> step (InstTick 0) s1 = None
     \<and> step (InstComplete 0) s1 = Some s2
     \<and> totalTime (instances s2 ! 0) = totalTime (instances s ! 0)"
proof -
  let ?s = "\<lparr>tanks = 0, healers = 0, dps = 0, t1 = 0, t2 = 0, stopFlag = False,
          instances =
            [\<lparr>inst_id = 1, hasParty = True, running = False, partiesServed = 0,
                totalTime = 0, currentTimeElapsed = 0, currDungeonDuration = 0\<rparr>],
          workers = [AtWait], scheduler = SchedWait\<rparr>"
  let ?w = "?s\<lparr>instances := [\<lparr>inst_id = 1, hasParty = True, running = True, partiesServed = 0,
                totalTime = 0, currentTimeElapsed = 0, currDungeonDuration = 0\<rparr>],
              workers := [FirstTick 0]\<rparr>"
  have nsf: "\<not> stopFlag ?s" by simp
  have st: "step (InstWake 0 0) ?s = Some ?w"
    by (simp add: instance_wake_def)
  from run_ticks_max_one_duration [OF run_assigned_zero nsf st]
  obtain s1 s2 where "run (replicate (nat (max 1 0)) (InstTick 0)) ?w = Some s1"
    "currentTimeElapsed (instances s1 ! 0) = max 1 0"
    "step (InstTick 0) s1 = None" "step (InstComplete 0) s1 = Some s2"
    "(0::int) = 0 \<longrightarrow> totalTime (instances s2 ! 0) = totalTime (instances ?s ! 0)"
    by blast
  with run_assigned_zero nsf st show ?thesis
    by (intro exI [of _ ?s] exI [of _ ?w] exI [of _ s1] exI [of _ s2]) simp
qed

text \<open>
  C5. The claim is that \<open>0 \<le> currentTimeElapsed \<le> currDungeonDuration\<close> holds while
  an instance is occupied, for every duration that the validated configuration permits.
  The input loops of \<open>part_000\<close> accept \<open>t1 = t2 = 0\<close>; the run of a dungeon then draws
  the duration 0, and its unconditional first increment leaves the instance occupied
  (\<open>hasParty\<close> and \<open>running\<close>) with the elapsed counter at 1 and the recorded duration
  at 0.
\<close>

theorem zero_duration_elapsed_exceeds_duration:
  "valid_config 1 1 1 3 0 0 \<and>
   (\<exists>s. run [SchedWake, InstWake 0 0, InstTick 0] (init_state 1 1 1 3 0 0) = Some s
      \<and> hasParty (instances s ! 0) \<and> running (instances s ! 0)
      \<and> currentTimeElapsed (instances s ! 0) = 1
      \<and> currDungeonDuration (instances s ! 0) = 0)"
  by (simp add: valid_config_def INT_MAX_def init_state_def new_Instance_def upto.simps
      sched_wake_pred_def sched_cycle_def assign_loop.simps instance_wake_def
      instance_tick_def Let_def)

text \<open>
  With a lower bound of at least 1 the bounds of the claim do hold in every state that a
  run reaches.
\<close>

lemma durations_ok_init: "durations_ok lo (init_state n ta he dp lo hi)"
  by (simp add: durations_ok_def init_state_def new_Instance_def)

lemma durations_ok_step:
  assumes "0 \<le> lo" and "durations_ok lo s" and "step e s = Some s'"
  shows "durations_ok lo s'"
proof (cases e)
  case SchedWake
  with assms(3) have "step SchedWake s = Some s'" by simp
  from sched_wake_effect [OF this] assms(1,2) show ?thesis
    by (auto simp: durations_ok_def nth_list_update split: if_splits)
next
  case SchedBackoffEnd
  with assms show ?thesis by (auto simp: durations_ok_def split: if_splits)
next
  case (InstWake k d)
  with assms(3) have "step (InstWake k d) s = Some s'" by simp
  from instance_wake_effect [OF this] assms(1,2) show ?thesis
    by (auto simp: durations_ok_def nth_list_update split: if_splits)
next
  case (InstTick k)
  with assms(3) have "step (InstTick k) s = Some s'" by simp
  from instance_tick_effect [OF this] assms(1,2) show ?thesis
    by (auto simp: durations_ok_def nth_list_update split: if_splits)
next
  case (InstComplete k)
  with assms(3) have "step (InstComplete k) s = Some s'" by simp
  from instance_complete_effect [OF this] assms(1,2) show ?thesis
    by (auto simp: durations_ok_def nth_list_update split: if_splits)
qed

lemma durations_ok_run:
  assumes "0 \<le> lo" and "run es (init_state n ta he dp lo hi) = Some s"
  shows "durations_ok lo s"
  by (rule run_invariant [where P = "durations_ok lo", OF durations_ok_init _ assms(2)])
    (rule durations_ok_step [OF assms(1)])

lemma elapsed_within_duration_when_positive:
  assumes "1 \<le> lo" and "run es (init_state n ta he dp lo hi) = Some s"
    and "k < length (instances s)"
  shows "(hasParty (instances s ! k) \<or> running (instances s ! k) \<longrightarrow>
            0 \<le> currentTimeElapsed (instances s ! k)
            \<and> currentTimeElapsed (instances s ! k) \<le> currDungeonDuration (instances s ! k))
    \<and> (\<not> hasParty (instances s ! k) \<and> \<not> running (instances s ! k) \<longrightarrow>
            currentTimeElapsed (instances s ! k) = 0)"
proof -
  from assms(1) have "0 \<le> lo" by simp
  from durations_ok_run [OF this assms(2)] assms(3)
  have d: "0 \<le> currDungeonDuration (instances s ! k)"
    "in_run (workers s ! k) \<longrightarrow> lo \<le> currDungeonDuration (instances s ! k)"
    by (auto simp: durations_ok_def)
  from consistent_run [OF assms(2)] assms(3)
  have c: "running (instances s ! k) = in_run (workers s ! k)"
    by (auto simp: consistent_def)
  from elapsed_ok_run [OF assms(2)] assms(3)
  have e: "elapsed_at (workers s ! k) (instances s ! k)"
    by (auto simp: elapsed_ok_def)
  from d c e assms(1) show ?thesis
    by (cases "workers s ! k") auto
qed

text \<open>
  The other half of the claim needs no condition on the durations: an instance that is
  neither assigned nor running has its elapsed counter at 0.
\<close>

lemma idle_elapsed_zero:
  assumes "run es (init_state n ta he dp lo hi) = Some s"
    and "k < length (instances s)"
    and "\<not> hasParty (instances s ! k)" and "\<not> running (instances s ! k)"
  shows "currentTimeElapsed (instances s ! k) = 0"
proof -
  from consistent_run [OF assms(1)] assms(2,4)
  have "\<not> in_run (workers s ! k)"
    by (auto simp: consistent_def)
  moreover from elapsed_ok_run [OF assms(1)] assms(2)
  have "elapsed_at (workers s ! k) (instances s ! k)"
    by (auto simp: elapsed_ok_def)
  ultimately show ?thesis
    by (cases "workers s ! k") auto
qed

section \<open>The two shipped files\<close>

lemma truncate_fields [simp]:
  "tanks (state.truncate s) = tanks s"
  "healers (state.truncate s) = healers s"
  "dps (state.truncate s) = dps s"
  "t1 (state.truncate s) = t1 s"
  "t2 (state.truncate s) = t2 s"
  "stopFlag (state.truncate s) = stopFlag s"
  "instances (state.truncate s) = instances s"
  "workers (state.truncate s) = workers s"
  "scheduler (state.truncate s) = scheduler s"
  by (simp_all add: state.truncate_def)

lemma truncate_updates [simp]:
  "state.truncate (s\<lparr>tanks := a\<rparr>) = (state.truncate s)\<lparr>tanks := a\<rparr>"
  "state.truncate (s\<lparr>healers := a\<rparr>) = (state.truncate s)\<lparr>healers := a\<rparr>"
  "state.truncate (s\<lparr>dps := a\<rparr>) = (state.truncate s)\<lparr>dps := a\<rparr>"
  "state.truncate (s\<lparr>stopFlag := b\<rparr>) = (state.truncate s)\<lparr>stopFlag := b\<rparr>"
  "state.truncate (s\<lparr>instances := is\<rparr>) = (state.truncate s)\<lparr>instances := is\<rparr>"
  "state.truncate (s\<lparr>workers := ws\<rparr>) = (state.truncate s)\<lparr>workers := ws\<rparr>"
  "state.truncate (s\<lparr>scheduler := pc\<rparr>) = (state.truncate s)\<lparr>scheduler := pc\<rparr>"
  "state.truncate (s\<lparr>partyNum := p\<rparr>) = state.truncate s"
  by (simp_all add: state.truncate_def)

lemma truncate_init: "state.truncate (init_state2 n ta he dp lo hi) = init_state n ta he dp lo hi"
  by (simp add: init_state2_def init_state_def state.truncate_def)

lemma truncate_sched_wake_pred: "sched_wake_pred (state.truncate s) = sched_wake_pred s"
  by (simp add: sched_wake_pred_def)

lemma truncate_instance_wake:
  "instance_wake k d (state.truncate s) = map_option state.truncate (instance_wake k d s)"
  by (simp add: instance_wake_def)

lemma truncate_instance_tick:
  "instance_tick k (state.truncate s) = map_option state.truncate (instance_tick k s)"
  by (simp add: instance_tick_def Let_def split: worker_pc.splits)

lemma truncate_instance_complete:
  "instance_complete k (state.truncate s) = map_option state.truncate (instance_complete k s)"
  by (simp add: instance_complete_def Let_def split: worker_pc.splits)

lemma truncate_assign_loop:
  "assign_loop k (state.truncate s)
     = (state.truncate (fst (assign_loop2 k s)), snd (assign_loop2 k s))"
proof (induction k s rule: assign_loop2.induct)
  case (1 k s)
  show ?case
  proof (cases "k < length (instances s)")
    case False
    then show ?thesis
      by (simp add: assign_loop.simps [of k] assign_loop2.simps [of k])
  next
    case inb: True
    show ?thesis
    proof (cases "\<not> hasParty (instances s ! k) \<and> \<not> running (instances s ! k)
           \<and> tanks s \<ge> 1 \<and> healers s \<ge> 1 \<and> dps s \<ge> 3")
      case True
      with inb show ?thesis
        by (simp add: assign_loop.simps [of k] assign_loop2.simps [of k] Let_def)
    next
      case False
      from False inb have "assign_loop2 k s = assign_loop2 (k + 1) s"
        by (auto simp add: assign_loop2.simps [of k s] Let_def)
      moreover from False inb
      have "assign_loop k (state.truncate s) = assign_loop (k + 1) (state.truncate s)"
        by (auto simp add: assign_loop.simps [of k "state.truncate s"] Let_def)
      ultimately show ?thesis
        using "1.IH" [OF inb refl False] by simp
    qed
  qed
qed

lemma truncate_sched_cycle: "sched_cycle (state.truncate s) = state.truncate (sched_cycle2 s)"
  by (simp add: sched_cycle_def sched_cycle2_def truncate_assign_loop Let_def split: prod.splits)

lemma truncate_step: "step e (state.truncate s) = map_option state.truncate (step2 e s)"
  by (cases e)
    (simp_all add: truncate_sched_wake_pred truncate_sched_cycle truncate_instance_wake
      truncate_instance_tick truncate_instance_complete)

text \<open>
  C8. Started from the same configuration and driven by the same events (which carry
  the drawn durations), the program of \<open>part_000\<close> goes through the same states as the
  program of \<open>main.cpp\<close> once its counter \<open>partyNum\<close> is dropped: the pool, every field
  of every instance, the stop flag and the control points agree state by state, and an
  event is possible in one exactly when it is possible in the other.
\<close>

theorem versions_equivalent:
  "map state.truncate (trace2 es (init_state2 n ta he dp lo hi))
     = trace es (init_state n ta he dp lo hi)"
proof -
  have "map state.truncate (trace2 es s) = trace es (state.truncate s)" for s
    by (induction es arbitrary: s) (auto simp: truncate_step split: option.splits)
  then show ?thesis by (simp add: truncate_init)
qed

section \<open>Scenario A: one instance, one party, duration 2\<close>

text \<open>
  Every state of the scenario has exactly one possible next step, up to the duration
  carried by the last wake-up, which is not drawn because the stop flag is set.
\<close>

lemmas step_defs = sched_wake_pred_def sched_cycle_def assign_loop.simps instance_wake_def
  instance_tick_def instance_complete_def Let_def party_assigned_def int32_def

lemma scenA_init: "init_state 1 1 1 3 2 2 = scenA 1 3 False (slotA False False 0 0 0 0) AtWait SchedWait"
  by (simp add: init_state_def new_Instance_def upto.simps)

lemma scenA_step0:
  "step e (scenA 1 3 False (slotA False False 0 0 0 0) AtWait SchedWait) = Some s' \<Longrightarrow>
     e = SchedWake \<and> s' = scenA 0 0 False (slotA True False 0 0 0 0) AtWait SchedWait"
  by (cases e) (auto simp: step_defs split: if_splits)

lemma scenA_step1:
  "step e (scenA 0 0 False (slotA True False 0 0 0 0) AtWait SchedWait) = Some s' \<Longrightarrow>
     e = InstWake 0 2 \<and> s' = scenA 0 0 False (slotA True True 0 0 0 2) (FirstTick 2) SchedWait"
  by (cases e) (auto simp: step_defs split: if_splits)

lemma scenA_step2:
  "step e (scenA 0 0 False (slotA True True 0 0 0 2) (FirstTick 2) SchedWait) = Some s' \<Longrightarrow>
     e = InstTick 0 \<and> s' = scenA 0 0 False (slotA True True 0 0 1 2) (LoopHead 2 1) SchedWait"
  by (cases e) (auto simp: step_defs split: if_splits)

lemma scenA_step3:
  "step e (scenA 0 0 False (slotA True True 0 0 1 2) (LoopHead 2 1) SchedWait) = Some s' \<Longrightarrow>
     e = InstTick 0 \<and> s' = scenA 0 0 False (slotA True True 0 0 2 2) (LoopHead 2 2) SchedWait"
  by (cases e) (auto simp: step_defs split: if_splits)

lemma scenA_step4:
  "step e (scenA 0 0 False (slotA True True 0 0 2 2) (LoopHead 2 2) SchedWait) = Some s' \<Longrightarrow>
     e = InstComplete 0 \<and> s' = scenA 0 0 False (slotA False False 1 2 0 2) AtWait SchedWait"
  by (cases e) (auto simp: step_defs split: if_splits)

lemma scenA_step5:
  "step e (scenA 0 0 False (slotA False False 1 2 0 2) AtWait SchedWait) = Some s' \<Longrightarrow>
     e = SchedWake \<and> s' = scenA 0 0 True (slotA False False 1 2 0 2) AtWait SchedExited"
  by (cases e) (auto simp: step_defs split: if_splits)

lemma scenA_step6:
  "step e (scenA 0 0 True (slotA False False 1 2 0 2) AtWait SchedExited) = Some s' \<Longrightarrow>
     (\<exists>d. e = InstWake 0 d) \<and> s' = scenA 0 0 True (slotA False False 1 2 0 2) Exited SchedExited"
  by (cases e) (auto simp: step_defs split: if_splits)

lemma scenA_step7:
  "step e (scenA 0 0 True (slotA False False 1 2 0 2) Exited SchedExited) = None"
  by (cases e) (auto simp: step_defs split: if_splits)

lemma run_Cons_elim:
  "run (e # es) s = Some s' \<Longrightarrow> \<exists>s1. step e s = Some s1 \<and> run es s1 = Some s'"
  by (simp split: option.splits)

lemma scenA_run7:
  assumes "run es (scenA 0 0 True (slotA False False 1 2 0 2) Exited SchedExited) = Some s"
  shows "es = [] \<and> s = scenA 0 0 True (slotA False False 1 2 0 2) Exited SchedExited"
proof (cases es)
  case Nil
  with assms show ?thesis by simp
next
  case (Cons e es')
  with assms obtain s1 where "step e (scenA 0 0 True (slotA False False 1 2 0 2) Exited SchedExited) = Some s1"
    by (blast dest: run_Cons_elim)
  then show ?thesis by (simp add: scenA_step7)
qed

lemma scenA_run6:
  assumes "run es (scenA 0 0 True (slotA False False 1 2 0 2) AtWait SchedExited) = Some s"
  shows "length es \<le> 1
    \<and> assignments es (scenA 0 0 True (slotA False False 1 2 0 2) AtWait SchedExited) = 0
    \<and> (\<not> terminated s \<longrightarrow> (\<exists>e s'. step e s = Some s'))
    \<and> (terminated s \<longrightarrow>
          length es = 1 \<and> count_list es (InstTick 0) = 0 \<and> s = scenA 0 0 True (slotA False False 1 2 0 2) Exited SchedExited)"
proof (cases es)
  case Nil
  with assms have s: "s = scenA 0 0 True (slotA False False 1 2 0 2) AtWait SchedExited"
    by simp
  have "step (InstWake 0 2) (scenA 0 0 True (slotA False False 1 2 0 2) AtWait SchedExited) = Some (scenA 0 0 True (slotA False False 1 2 0 2) Exited SchedExited)"
    by (simp add: step_defs)
  then have "\<exists>e s'. step e (scenA 0 0 True (slotA False False 1 2 0 2) AtWait SchedExited) = Some s'"
    by blast
  then show ?thesis
    unfolding s Nil by (simp add: terminated_def)
next
  case (Cons e es')
  with assms obtain s1 where st: "step e (scenA 0 0 True (slotA False False 1 2 0 2) AtWait SchedExited) = Some s1" and r1: "run es' s1 = Some s"
    by (blast dest: run_Cons_elim)
  from scenA_step6 [OF st] have e: "\<exists>d. e = InstWake 0 d" and s1: "s1 = scenA 0 0 True (slotA False False 1 2 0 2) Exited SchedExited"
    by simp_all
  from r1 s1 have r: "run es' (scenA 0 0 True (slotA False False 1 2 0 2) Exited SchedExited) = Some s"
    by simp
  from scenA_run7 [OF r] have rec: "es' = []" "s = scenA 0 0 True (slotA False False 1 2 0 2) Exited SchedExited" by simp_all
  have pa: "\<not> party_assigned (scenA 0 0 True (slotA False False 1 2 0 2) AtWait SchedExited)"
    by (simp add: step_defs)
  from rec Cons st e pa show ?thesis
    unfolding s1 by (auto simp: terminated_def)
qed

lemma scenA_run5:
  assumes "run es (scenA 0 0 False (slotA False False 1 2 0 2) AtWait SchedWait) = Some s"
  shows "length es \<le> 2
    \<and> assignments es (scenA 0 0 False (slotA False False 1 2 0 2) AtWait SchedWait) = 0
    \<and> (\<not> terminated s \<longrightarrow> (\<exists>e s'. step e s = Some s'))
    \<and> (terminated s \<longrightarrow>
          length es = 2 \<and> count_list es (InstTick 0) = 0 \<and> s = scenA 0 0 True (slotA False False 1 2 0 2) Exited SchedExited)"
proof (cases es)
  case Nil
  with assms have s: "s = scenA 0 0 False (slotA False False 1 2 0 2) AtWait SchedWait"
    by simp
  have "step (SchedWake) (scenA 0 0 False (slotA False False 1 2 0 2) AtWait SchedWait) = Some (scenA 0 0 True (slotA False False 1 2 0 2) AtWait SchedExited)"
    by (simp add: step_defs)
  then have "\<exists>e s'. step e (scenA 0 0 False (slotA False False 1 2 0 2) AtWait SchedWait) = Some s'"
    by blast
  then show ?thesis
    unfolding s Nil by (simp add: terminated_def)
next
  case (Cons e es')
  with assms obtain s1 where st: "step e (scenA 0 0 False (slotA False False 1 2 0 2) AtWait SchedWait) = Some s1" and r1: "run es' s1 = Some s"
    by (blast dest: run_Cons_elim)
  from scenA_step5 [OF st] have e: "e = SchedWake" and s1: "s1 = scenA 0 0 True (slotA False False 1 2 0 2) AtWait SchedExited"
    by simp_all
  from r1 s1 have r: "run es' (scenA 0 0 True (slotA False False 1 2 0 2) AtWait SchedExited) = Some s"
    by simp
  note rec = scenA_run6 [OF r]
  have pa: "\<not> party_assigned (scenA 0 0 False (slotA False False 1 2 0 2) AtWait SchedWait)"
    by (simp add: step_defs)
  from rec Cons st e pa show ?thesis
    unfolding s1 by (auto simp: terminated_def)
qed

lemma scenA_run4:
  assumes "run es (scenA 0 0 False (slotA True True 0 0 2 2) (LoopHead 2 2) SchedWait) = Some s"
  shows "length es \<le> 3
    \<and> assignments es (scenA 0 0 False (slotA True True 0 0 2 2) (LoopHead 2 2) SchedWait) = 0
    \<and> (\<not> terminated s \<longrightarrow> (\<exists>e s'. step e s = Some s'))
    \<and> (terminated s \<longrightarrow>
          length es = 3 \<and> count_list es (InstTick 0) = 0 \<and> s = scenA 0 0 True (slotA False False 1 2 0 2) Exited SchedExited)"
proof (cases es)
  case Nil
  with assms have s: "s = scenA 0 0 False (slotA True True 0 0 2 2) (LoopHead 2 2) SchedWait"
    by simp
  have "step (InstComplete 0) (scenA 0 0 False (slotA True True 0 0 2 2) (LoopHead 2 2) SchedWait) = Some (scenA 0 0 False (slotA False False 1 2 0 2) AtWait SchedWait)"
    by (simp add: step_defs)
  then have "\<exists>e s'. step e (scenA 0 0 False (slotA True True 0 0 2 2) (LoopHead 2 2) SchedWait) = Some s'"
    by blast
  then show ?thesis
    unfolding s Nil by (simp add: terminated_def)
next
  case (Cons e es')
  with assms obtain s1 where st: "step e (scenA 0 0 False (slotA True True 0 0 2 2) (LoopHead 2 2) SchedWait) = Some s1" and r1: "run es' s1 = Some s"
    by (blast dest: run_Cons_elim)
  from scenA_step4 [OF st] have e: "e = InstComplete 0" and s1: "s1 = scenA 0 0 False (slotA False False 1 2 0 2) AtWait SchedWait"
    by simp_all
  from r1 s1 have r: "run es' (scenA 0 0 False (slotA False False 1 2 0 2) AtWait SchedWait) = Some s"
    by simp
  note rec = scenA_run5 [OF r]
  have pa: "\<not> party_assigned (scenA 0 0 False (slotA True True 0 0 2 2) (LoopHead 2 2) SchedWait)"
    by (simp add: step_defs)
  from rec Cons st e pa show ?thesis
    unfolding s1 by (auto simp: terminated_def)
qed

lemma scenA_run3:
  assumes "run es (scenA 0 0 False (slotA True True 0 0 1 2) (LoopHead 2 1) SchedWait) = Some s"
  shows "length es \<le> 4
    \<and> assignments es (scenA 0 0 False (slotA True True 0 0 1 2) (LoopHead 2 1) SchedWait) = 0
    \<and> (\<not> terminated s \<longrightarrow> (\<exists>e s'. step e s = Some s'))
    \<and> (terminated s \<longrightarrow>
          length es = 4 \<and> count_list es (InstTick 0) = 1 \<and> s = scenA 0 0 True (slotA False False 1 2 0 2) Exited SchedExited)"
proof (cases es)
  case Nil
  with assms have s: "s = scenA 0 0 False (slotA True True 0 0 1 2) (LoopHead 2 1) SchedWait"
    by simp
  have "step (InstTick 0) (scenA 0 0 False (slotA True True 0 0 1 2) (LoopHead 2 1) SchedWait) = Some (scenA 0 0 False (slotA True True 0 0 2 2) (LoopHead 2 2) SchedWait)"
    by (simp add: step_defs)
  then have "\<exists>e s'. step e (scenA 0 0 False (slotA True True 0 0 1 2) (LoopHead 2 1) SchedWait) = Some s'"
    by blast
  then show ?thesis
    unfolding s Nil by (simp add: terminated_def)
next
  case (Cons e es')
  with assms obtain s1 where st: "step e (scenA 0 0 False (slotA True True 0 0 1 2) (LoopHead 2 1) SchedWait) = Some s1" and r1: "run es' s1 = Some s"
    by (blast dest: run_Cons_elim)
  from scenA_step3 [OF st] have e: "e = InstTick 0" and s1: "s1 = scenA 0 0 False (slotA True True 0 0 2 2) (LoopHead 2 2) SchedWait"
    by simp_all
  from r1 s1 have r: "run es' (scenA 0 0 False (slotA True True 0 0 2 2) (LoopHead 2 2) SchedWait) = Some s"
    by simp
  note rec = scenA_run4 [OF r]
  have pa: "\<not> party_assigned (scenA 0 0 False (slotA True True 0 0 1 2) (LoopHead 2 1) SchedWait)"
    by (simp add: step_defs)
  from rec Cons st e pa show ?thesis
    unfolding s1 by (auto simp: terminated_def)
qed

lemma scenA_run2:
  assumes "run es (scenA 0 0 False (slotA True True 0 0 0 2) (FirstTick 2) SchedWait) = Some s"
  shows "length es \<le> 5
    \<and> assignments es (scenA 0 0 False (slotA True True 0 0 0 2) (FirstTick 2) SchedWait) = 0
    \<and> (\<not> terminated s \<longrightarrow> (\<exists>e s'. step e s = Some s'))
    \<and> (terminated s \<longrightarrow>
          length es = 5 \<and> count_list es (InstTick 0) = 2 \<and> s = scenA 0 0 True (slotA False False 1 2 0 2) Exited SchedExited)"
proof (cases es)
  case Nil
  with assms have s: "s = scenA 0 0 False (slotA True True 0 0 0 2) (FirstTick 2) SchedWait"
    by simp
  have "step (InstTick 0) (scenA 0 0 False (slotA True True 0 0 0 2) (FirstTick 2) SchedWait) = Some (scenA 0 0 False (slotA True True 0 0 1 2) (LoopHead 2 1) SchedWait)"
    by (simp add: step_defs)
  then have "\<exists>e s'. step e (scenA 0 0 False (slotA True True 0 0 0 2) (FirstTick 2) SchedWait) = Some s'"
    by blast
  then show ?thesis
    unfolding s Nil by (simp add: terminated_def)
next
  case (Cons e es')
  with assms obtain s1 where st: "step e (scenA 0 0 False (slotA True True 0 0 0 2) (FirstTick 2) SchedWait) = Some s1" and r1: "run es' s1 = Some s"
    by (blast dest: run_Cons_elim)
  from scenA_step2 [OF st] have e: "e = InstTick 0" and s1: "s1 = scenA 0 0 False (slotA True True 0 0 1 2) (LoopHead 2 1) SchedWait"
    by simp_all
  from r1 s1 have r: "run es' (scenA 0 0 False (slotA True True 0 0 1 2) (LoopHead 2 1) SchedWait) = Some s"
    by simp
  note rec = scenA_run3 [OF r]
  have pa: "\<not> party_assigned (scenA 0 0 False (slotA True True 0 0 0 2) (FirstTick 2) SchedWait)"
    by (simp add: step_defs)
  from rec Cons st e pa show ?thesis
    unfolding s1 by (auto simp: terminated_def)
qed

lemma scenA_run1:
  assumes "run es (scenA 0 0 False (slotA True False 0 0 0 0) AtWait SchedWait) = Some s"
  shows "length es \<le> 6
    \<and> assignments es (scenA 0 0 False (slotA True False 0 0 0 0) AtWait SchedWait) = 0
    \<and> (\<not> terminated s \<longrightarrow> (\<exists>e s'. step e s = Some s'))
    \<and> (terminated s \<longrightarrow>
          length es = 6 \<and> count_list es (InstTick 0) = 2 \<and> s = scenA 0 0 True (slotA False False 1 2 0 2) Exited SchedExited)"
proof (cases es)
  case Nil
  with assms have s: "s = scenA 0 0 False (slotA True False 0 0 0 0) AtWait SchedWait"
    by simp
  have "step (InstWake 0 2) (scenA 0 0 False (slotA True False 0 0 0 0) AtWait SchedWait) = Some (scenA 0 0 False (slotA True True 0 0 0 2) (FirstTick 2) SchedWait)"
    by (simp add: step_defs)
  then have "\<exists>e s'. step e (scenA 0 0 False (slotA True False 0 0 0 0) AtWait SchedWait) = Some s'"
    by blast
  then show ?thesis
    unfolding s Nil by (simp add: terminated_def)
next
  case (Cons e es')
  with assms obtain s1 where st: "step e (scenA 0 0 False (slotA True False 0 0 0 0) AtWait SchedWait) = Some s1" and r1: "run es' s1 = Some s"
    by (blast dest: run_Cons_elim)
  from scenA_step1 [OF st] have e: "e = InstWake 0 2" and s1: "s1 = scenA 0 0 False (slotA True True 0 0 0 2) (FirstTick 2) SchedWait"
    by simp_all
  from r1 s1 have r: "run es' (scenA 0 0 False (slotA True True 0 0 0 2) (FirstTick 2) SchedWait) = Some s"
    by simp
  note rec = scenA_run2 [OF r]
  have pa: "\<not> party_assigned (scenA 0 0 False (slotA True False 0 0 0 0) AtWait SchedWait)"
    by (simp add: step_defs)
  from rec Cons st e pa show ?thesis
    unfolding s1 by (auto simp: terminated_def)
qed

lemma scenA_run0:
  assumes "run es (scenA 1 3 False (slotA False False 0 0 0 0) AtWait SchedWait) = Some s"
  shows "length es \<le> 7
    \<and> assignments es (scenA 1 3 False (slotA False False 0 0 0 0) AtWait SchedWait) = (if es = [] then 0 else 1)
    \<and> (\<not> terminated s \<longrightarrow> (\<exists>e s'. step e s = Some s'))
    \<and> (terminated s \<longrightarrow>
          length es = 7 \<and> count_list es (InstTick 0) = 2 \<and> s = scenA 0 0 True (slotA False False 1 2 0 2) Exited SchedExited)"
proof (cases es)
  case Nil
  with assms have s: "s = scenA 1 3 False (slotA False False 0 0 0 0) AtWait SchedWait"
    by simp
  have "step (SchedWake) (scenA 1 3 False (slotA False False 0 0 0 0) AtWait SchedWait) = Some (scenA 0 0 False (slotA True False 0 0 0 0) AtWait SchedWait)"
    by (simp add: step_defs)
  then have "\<exists>e s'. step e (scenA 1 3 False (slotA False False 0 0 0 0) AtWait SchedWait) = Some s'"
    by blast
  then show ?thesis
    unfolding s Nil by (simp add: terminated_def)
next
  case (Cons e es')
  with assms obtain s1 where st: "step e (scenA 1 3 False (slotA False False 0 0 0 0) AtWait SchedWait) = Some s1" and r1: "run es' s1 = Some s"
    by (blast dest: run_Cons_elim)
  from scenA_step0 [OF st] have e: "e = SchedWake" and s1: "s1 = scenA 0 0 False (slotA True False 0 0 0 0) AtWait SchedWait"
    by simp_all
  from r1 s1 have r: "run es' (scenA 0 0 False (slotA True False 0 0 0 0) AtWait SchedWait) = Some s"
    by simp
  note rec = scenA_run1 [OF r]
  have pa: "party_assigned (scenA 1 3 False (slotA False False 0 0 0 0) AtWait SchedWait)"
    by (simp add: step_defs)
  from rec Cons st e pa show ?thesis
    unfolding s1 by (auto simp: terminated_def)
qed

text \<open>
  C7. With one instance, the pool \<open>(1, 1, 3)\<close> and the duration range \<open>[2, 2]\<close>: every
  run has at most 7 steps and at most one assignment; a run whose threads have not all
  returned can always take a further step; and when all threads have returned, exactly
  one assignment was made, the elapsed counter was advanced exactly twice, the stop flag
  is set, the pool is \<open>(0, 0, 0)\<close> and the instance has \<open>partiesServed = 1\<close> and
  \<open>totalTime = 2\<close>.
\<close>

theorem scenario_A:
  assumes "run es (init_state 1 1 1 3 2 2) = Some s"
  shows "length es \<le> 7
    \<and> assignments es (init_state 1 1 1 3 2 2) \<le> 1
    \<and> (\<not> terminated s \<longrightarrow> (\<exists>e s'. step e s = Some s'))
    \<and> (terminated s \<longrightarrow>
          assignments es (init_state 1 1 1 3 2 2) = 1
          \<and> count_list es (InstTick 0) = 2
          \<and> stopFlag s \<and> tanks s = 0 \<and> healers s = 0 \<and> dps s = 0
          \<and> instances s =
              [\<lparr>inst_id = 1, hasParty = False, running = False, partiesServed = 1,
                 totalTime = 2, currentTimeElapsed = 0, currDungeonDuration = 2\<rparr>])"
proof -
  from assms have r: "run es (scenA 1 3 False (slotA False False 0 0 0 0) AtWait SchedWait) = Some s"
    by (simp add: scenA_init)
  note facts = scenA_run0 [OF r]
  have "terminated s \<longrightarrow> es \<noteq> []"
    using facts by auto
  with facts show ?thesis
    unfolding scenA_init by auto
qed

theorem scenario_A_witness:
  "\<exists>s. run [SchedWake, InstWake 0 2, InstTick 0, InstTick 0, InstComplete 0, SchedWake,
            InstWake 0 2] (init_state 1 1 1 3 2 2) = Some s
     \<and> terminated s
     \<and> assignments [SchedWake, InstWake 0 2, InstTick 0, InstTick 0, InstComplete 0, SchedWake,
            InstWake 0 2] (init_state 1 1 1 3 2 2) = 1
     \<and> stopFlag s \<and> tanks s = 0 \<and> healers s = 0 \<and> dps s = 0
     \<and> instances s =
              [\<lparr>inst_id = 1, hasParty = False, running = False, partiesServed = 1,
                 totalTime = 2, currentTimeElapsed = 0, currDungeonDuration = 2\<rparr>]"
proof -
  have r: "run [SchedWake, InstWake 0 2, InstTick 0, InstTick 0, InstComplete 0, SchedWake,
            InstWake 0 2] (init_state 1 1 1 3 2 2)
      = Some (scenA 0 0 True (slotA False False 1 2 0 2) Exited SchedExited)"
    by (simp add: scenA_init step_defs)
  have t: "terminated (scenA 0 0 True (slotA False False 1 2 0 2) Exited SchedExited)"
    by (simp add: terminated_def)
  from scenario_A [OF r] t r show ?thesis
    by simp
qed

end
